theory Spec2Isabelle
  imports Complex_Main "HOL-Library.Word" "HOL-Library.Multiset" "HOL-Library.AList"
begin

section \<open>Go \<open>int64\<close> arithmetic\<close>

text \<open>
  File sizes, offsets and chunk counts are Go \<open>int64\<close> values. They are modelled as
  \<open>int\<close> with the two's-complement wrap-around written out; \<open>/\<close> on \<open>int64\<close>
  truncates towards zero.
\<close>

definition i64 :: "int \<Rightarrow> int" where
  "i64 x = (x + 2 ^ 63) mod 2 ^ 64 - 2 ^ 63"

definition add64 :: "int \<Rightarrow> int \<Rightarrow> int" where
  "add64 a b = i64 (a + b)"

definition sub64 :: "int \<Rightarrow> int \<Rightarrow> int" where
  "sub64 a b = i64 (a - b)"

definition mul64 :: "int \<Rightarrow> int \<Rightarrow> int" where
  "mul64 a b = i64 (a * b)"

definition div64 :: "int \<Rightarrow> int \<Rightarrow> int" where
  "div64 a b = i64 (sgn a * sgn b * (\<bar>a\<bar> div \<bar>b\<bar>))"

definition in_i64 :: "int \<Rightarrow> bool" where
  "in_i64 x = (- (2 ^ 63) \<le> x \<and> x < 2 ^ 63)"

section \<open>Data model\<close>

type_synonym byte = "8 word"

datatype error =
    errFileTooLarge
  | errInvalidFile
  | errNotEnoughSpace
  | errCheckSpace error
  | errNilPointer
  | errInvalidRangeFormat
  | errInvalidRangeValues
  | errParseInt
  | errMultipleRanges
  | errBadRange int int
  | errClosedPipe
  | errMakechan
  | errEOF
  | errStore string
  | errFileInfo error
  | errGetQuota error
  | errReadChunk int error
  | errUploadChunk int error

text \<open>\<open>type ChunkInfo struct { Start, End int64; Data []byte; Complete bool; Error error }\<close>\<close>

record ChunkInfo =
  Start :: int
  End :: int
  Data :: "byte list"
  Complete :: bool
  Error :: "error option"

text \<open>The zero value of the struct: what a receive from a closed, drained channel yields.\<close>

definition zeroChunkInfo :: ChunkInfo where
  "zeroChunkInfo = \<lparr>Start = 0, End = 0, Data = [], Complete = False, Error = None\<rparr>"

section \<open>Constants\<close>

definition maxFileSize :: int where
  "maxFileSize = 100 * 1024 * 1024"

definition maxConcurrentUploads :: nat where
  "maxConcurrentUploads = 5"

definition chunkSize :: int where
  "chunkSize = 10 * 1024 * 1024"

definition defaultChunkSize :: int where
  "defaultChunkSize = 5 * 1024 * 1024"

definition maxWorkers :: nat where
  "maxWorkers = 5"

definition maxRetries :: nat where
  "maxRetries = 3"

section \<open>Chunk planning\<close>

text \<open>
  \<open>numChunks := (totalSize + defaultChunkSize - 1) / defaultChunkSize\<close> in
  \<open>DownloadFileParallel\<close>, and the same expression with \<open>chunkSize\<close> in
  \<open>uploadFileParallel\<close>. The chunk size is a parameter of the model; the two
  functions instantiate it with their constant.
\<close>

definition numChunks :: "int \<Rightarrow> int \<Rightarrow> int" where
  "numChunks cs totalSize = div64 (sub64 (add64 totalSize cs) 1) cs"

text \<open>
  The body of the first loop of the writer goroutine of \<open>DownloadFileParallel\<close>:
  \<open>start := i * cs; end := start + cs; if end > totalSize { end = totalSize }\<close>,
  then \<open>ChunkInfo{Start: start, End: end - 1}\<close>.
\<close>

definition chunkBounds :: "int \<Rightarrow> int \<Rightarrow> int \<Rightarrow> ChunkInfo" where
  "chunkBounds cs totalSize i =
     (let start = mul64 i cs;
          end0 = add64 start cs;
          end1 = (if end0 > totalSize then totalSize else end0)
      in \<lparr>Start = start, End = sub64 end1 1, Data = [], Complete = False, Error = None\<rparr>)"

text \<open>
  \<open>for i := int64(0); i < numChunks; i++ { chunks <- ChunkInfo{...} }\<close>. The increment
  cannot wrap: \<open>i < numChunks\<close> and \<open>numChunks\<close> is an \<open>int64\<close>.
\<close>

function chunkLoop :: "int \<Rightarrow> int \<Rightarrow> int \<Rightarrow> int \<Rightarrow> ChunkInfo list" where
  "chunkLoop cs totalSize n i =
     (if i < n then chunkBounds cs totalSize i # chunkLoop cs totalSize n (i + 1) else [])"
  by pat_completeness auto
termination
  by (relation "measure (\<lambda>(cs, totalSize, n, i). nat (n - i))") auto

declare chunkLoop.simps [simp del]

definition planChunks :: "int \<Rightarrow> int \<Rightarrow> ChunkInfo list" where
  "planChunks cs totalSize = chunkLoop cs totalSize (numChunks cs totalSize) 0"

text \<open>
  The planning prefix of \<open>DownloadFileParallel\<close>: the chunk count, the
  \<open>make(chan ChunkInfo, numChunks)\<close> that panics on a negative capacity, and the
  descriptors put on the \<open>chunks\<close> channel. There is no argument check.
\<close>

definition downloadPlan :: "int \<Rightarrow> error + ChunkInfo list" where
  "downloadPlan totalSize =
     (if numChunks defaultChunkSize totalSize < 0 then Inl errMakechan
      else Inr (planChunks defaultChunkSize totalSize))"

text \<open>
  The goroutine body of \<open>uploadFileParallel\<close> computes, for chunk \<open>chunkNum\<close>,
  \<open>offset := chunkNum * chunkSize\<close> and the size
  \<open>if offset+chunkSize > totalSize { size = totalSize - offset } else { size = chunkSize }\<close>.
  The pair is (offset, size).
\<close>

definition uploadSlice :: "int \<Rightarrow> int \<Rightarrow> int \<Rightarrow> int \<times> int" where
  "uploadSlice cs totalSize chunkNum =
     (let offset = mul64 chunkNum cs
      in (offset, if add64 offset cs > totalSize then sub64 totalSize offset else cs))"

function uploadLoop :: "int \<Rightarrow> int \<Rightarrow> int \<Rightarrow> int \<Rightarrow> (int \<times> int) list" where
  "uploadLoop cs totalSize n i =
     (if i < n then uploadSlice cs totalSize i # uploadLoop cs totalSize n (i + 1) else [])"
  by pat_completeness auto
termination
  by (relation "measure (\<lambda>(cs, totalSize, n, i). nat (n - i))") auto

declare uploadLoop.simps [simp del]

definition uploadSlices :: "int \<Rightarrow> int \<Rightarrow> (int \<times> int) list" where
  "uploadSlices cs totalSize = uploadLoop cs totalSize (numChunks cs totalSize) 0"

definition uploadPlan :: "int \<Rightarrow> error + (int \<times> int) list" where
  "uploadPlan totalSize =
     (if numChunks chunkSize totalSize < 0 then Inl errMakechan
      else Inr (uploadSlices chunkSize totalSize))"

text \<open>The byte offsets a descriptor covers, in order.\<close>

definition chunkRange :: "ChunkInfo \<Rightarrow> int list" where
  "chunkRange c = [Start c .. End c]"

definition chunkLen :: "ChunkInfo \<Rightarrow> int" where
  "chunkLen c = End c - Start c + 1"

definition sliceRange :: "int \<times> int \<Rightarrow> int list" where
  "sliceRange s = [fst s .. fst s + snd s - 1]"

section \<open>The output pipe\<close>

text \<open>
  \<open>pr, pw := io.Pipe()\<close>. The pipe records the payload of every successful
  \<open>pw.Write\<close> in order, how the write side was closed (\<open>pw.Close()\<close> makes the
  reader see \<open>io.EOF\<close> after the bytes written), and when the reader closes its side:
  \<open>rclosed_after = Some k\<close> means the reader goes away after \<open>k\<close> more writes, after
  which \<open>pw.Write\<close> returns \<open>io.ErrClosedPipe\<close>; \<open>None\<close> means it keeps reading.
\<close>

datatype stream_end = EOF | Failed error

record pipe =
  written :: "byte list list"
  rclosed_after :: "nat option"
  wclosed :: "stream_end option"

definition newPipe :: "nat option \<Rightarrow> pipe" where
  "newPipe rc = \<lparr>written = [], rclosed_after = rc, wclosed = None\<rparr>"

definition pw_Write :: "pipe \<Rightarrow> byte list \<Rightarrow> error + pipe" where
  "pw_Write p data =
     (case rclosed_after p of
        None \<Rightarrow> Inr (p\<lparr>written := written p @ [data]\<rparr>)
      | Some 0 \<Rightarrow> Inl errClosedPipe
      | Some (Suc k) \<Rightarrow> Inr (p\<lparr>written := written p @ [data], rclosed_after := Some k\<rparr>))"

definition pw_Close :: "pipe \<Rightarrow> pipe" where
  "pw_Close p = (case wclosed p of None \<Rightarrow> p\<lparr>wclosed := Some EOF\<rparr> | Some _ \<Rightarrow> p)"

text \<open>What a reader of \<open>pr\<close> gets: the bytes, then the end-of-stream condition.\<close>

definition readAll :: "pipe \<Rightarrow> byte list \<times> stream_end option" where
  "readAll p = (concat (written p), wclosed p)"

section \<open>The writer goroutine of \<open>DownloadFileParallel\<close>\<close>

text \<open>
  \<open>assembledData := make(map[int64][]byte)\<close> is an association list with
  \<open>AList.update\<close> for assignment and \<open>AList.delete\<close> for \<open>delete\<close>. The inner
  \<open>for { if data, ok := assembledData[currentOffset]; ok { ... } else { break } }\<close>
  is \<open>drain\<close>; it returns the write error, if any, and the map, cursor and pipe it
  reached.
\<close>

function drain ::
  "(int \<times> byte list) list \<Rightarrow> int \<Rightarrow> pipe \<Rightarrow> error option \<times> (int \<times> byte list) list \<times> int \<times> pipe"
where
  "drain m cur p =
     (case map_of m cur of
        None \<Rightarrow> (None, m, cur, p)
      | Some data \<Rightarrow>
          (case pw_Write p data of
             Inl e \<Rightarrow> (Some e, m, cur, p)
           | Inr p' \<Rightarrow> drain (AList.delete cur m) (add64 cur (int (length data))) p'))"
  by pat_completeness auto
termination
proof (relation "measure (\<lambda>(m, cur, p). length m)")
  show "wf (measure (\<lambda>(m, cur, p). length m))" by simp
next
  fix m :: "(int \<times> byte list) list" and cur :: int and p :: pipe and data p'
  assume "map_of m cur = Some data"
  then have "(cur, data) \<in> set m" by (rule map_of_SomeD)
  then have "length (filter (\<lambda>(k, v). cur \<noteq> k) m) < length m"
    by (intro length_filter_less[of "(cur, data)"]) auto
  then show "((AList.delete cur m, add64 cur (int (length data)), p'), (m, cur, p))
      \<in> measure (\<lambda>(m, cur, p). length m)"
    by (simp add: AList.delete_eq)
qed

declare drain.simps [simp del]

text \<open>
  \<open>result := <-results\<close>. The channel is the list of results not yet received; it is
  closed once every worker has returned, and a receive from a closed, empty channel
  yields the zero \<open>ChunkInfo\<close>.
\<close>

definition recv :: "ChunkInfo list \<Rightarrow> ChunkInfo \<times> ChunkInfo list" where
  "recv q = (case q of [] \<Rightarrow> (zeroChunkInfo, []) | r # rest \<Rightarrow> (r, rest))"

record writer =
  assembledData :: "(int \<times> byte list) list"
  currentOffset :: int
  pw :: pipe
  errors :: "error list"
  results :: "ChunkInfo list"

text \<open>
  The second loop of the goroutine: \<open>for i := int64(0); i < numChunks; i++\<close>. A result
  with an error is put on the \<open>errors\<close> channel (capacity 1, written at most once) and
  the goroutine returns; so does a failed write.
\<close>

function consume :: "int \<Rightarrow> int \<Rightarrow> writer \<Rightarrow> writer" where
  "consume n i w =
     (if i < n then
        (let (result, rest) = recv (results w);
             w1 = w\<lparr>results := rest\<rparr>
         in case Error result of
              Some e \<Rightarrow> w1\<lparr>errors := errors w1 @ [e]\<rparr>
            | None \<Rightarrow>
                (case drain (AList.update (Start result) (Data result) (assembledData w1))
                        (currentOffset w1) (pw w1) of
                   (Some e, m, cur, p) \<Rightarrow>
                     w1\<lparr>assembledData := m, currentOffset := cur, pw := p,
                        errors := errors w1 @ [e]\<rparr>
                 | (None, m, cur, p) \<Rightarrow>
                     consume n (i + 1) (w1\<lparr>assembledData := m, currentOffset := cur, pw := p\<rparr>)))
      else w)"
  by pat_completeness auto
termination
  by (relation "measure (\<lambda>(n, i, w). nat (n - i))") auto

declare consume.simps [simp del]

text \<open>
  The goroutine as a whole, given the results the workers deliver in arrival order:
  \<open>defer pw.Close()\<close> runs on every return path.
\<close>

definition writerGoroutine :: "int \<Rightarrow> ChunkInfo list \<Rightarrow> pipe \<Rightarrow> writer" where
  "writerGoroutine totalSize rs p =
     (let w = consume (numChunks defaultChunkSize totalSize) 0
                \<lparr>assembledData = [], currentOffset = 0, pw = p, errors = [], results = rs\<rparr>
      in w\<lparr>pw := pw_Close (pw w)\<rparr>)"

section \<open>Fetching a byte range\<close>

text \<open>
  \<open>GetFileDataRange\<close>: \<open>info\<close> is the outcome of \<open>s.GetFileInfo\<close> (the file's
  \<open>SizeBytes\<close>), \<open>s3\<close> is \<open>s.s3Client.GetObjectRange\<close> on the file's key, with the
  fallback to the alternative key folded into it. The range is clamped to the file and
  rejected only if it is empty after clamping.
\<close>

definition GetFileDataRange ::
  "(int \<Rightarrow> int \<Rightarrow> error + 'r) \<Rightarrow> error + int \<Rightarrow> int \<Rightarrow> int \<Rightarrow> error + 'r" where
  "GetFileDataRange s3 info start end =
     (case info of
        Inl e \<Rightarrow> Inl (errFileInfo e)
      | Inr sizeBytes \<Rightarrow>
          (let start1 = (if start < 0 then 0 else start);
               end1 = (if end \<ge> sizeBytes then sub64 sizeBytes 1 else end)
           in if start1 > end1 then Inl (errBadRange start1 end1) else s3 start1 end1))"

text \<open>The bytes \<open>start..end\<close> (inclusive) of an object holding \<open>bs\<close>.\<close>

definition byteRange :: "byte list \<Rightarrow> int \<Rightarrow> int \<Rightarrow> byte list" where
  "byteRange bs start end = take (nat (end - start + 1)) (drop (nat start) bs)"

section \<open>The download workers\<close>

text \<open>
  What a worker does with one chunk, as a trace of the calls it makes. The body returned
  by a successful \<open>GetFileDataRange\<close> is the outcome of reading it with \<open>io.Copy\<close>:
  an error or the bytes.
\<close>

datatype event =
    EvWithTimeout nat
  | EvGetFileDataRange int int
  | EvSleep nat
  | EvCopy

type_synonym body = "error + byte list"

text \<open>
  \<open>for retry := 0; retry < maxRetries; retry++ { data, err = s.GetFileDataRange(...);
  if err == nil { break }; time.Sleep(time.Second * time.Duration(retry+1)) }\<close>.
  \<open>attempt retry\<close> is the outcome of the call made in iteration \<open>retry\<close>.
\<close>

function retryLoop ::
  "(nat \<Rightarrow> error + body) \<Rightarrow> ChunkInfo \<Rightarrow> nat \<Rightarrow> (error + body) option \<times> event list
     \<Rightarrow> (error + body) option \<times> event list" where
  "retryLoop attempt chunk retry (r, tr) =
     (if retry < maxRetries then
        (case attempt retry of
           Inr data \<Rightarrow> (Some (Inr data), tr @ [EvGetFileDataRange (Start chunk) (End chunk)])
         | Inl err \<Rightarrow>
             retryLoop attempt chunk (retry + 1)
               (Some (Inl err),
                tr @ [EvGetFileDataRange (Start chunk) (End chunk), EvSleep (retry + 1)]))
      else (r, tr))"
  by pat_completeness auto
termination
  by (relation "measure (\<lambda>(attempt, chunk, retry, acc). maxRetries - retry)") auto

declare retryLoop.simps [simp del]

text \<open>
  The body of \<open>for chunk := range chunks\<close>: one context with a 30 s deadline for the
  chunk, the retry loop under it, then \<open>io.Copy\<close> of the body. The result sent on
  \<open>results\<close> is \<open>ChunkInfo{Error: err}\<close> or \<open>ChunkInfo{Start, End, Data}\<close>; after
  sending an error the worker returns.
\<close>

definition processChunk :: "(nat \<Rightarrow> error + body) \<Rightarrow> ChunkInfo \<Rightarrow> ChunkInfo \<times> event list" where
  "processChunk attempt chunk =
     (case retryLoop attempt chunk 0 (None, [EvWithTimeout 30]) of
        (Some (Inl err), tr) \<Rightarrow> (zeroChunkInfo\<lparr>Error := Some err\<rparr>, tr)
      | (Some (Inr (Inl err)), tr) \<Rightarrow> (zeroChunkInfo\<lparr>Error := Some err\<rparr>, tr @ [EvCopy])
      | (Some (Inr (Inr bytes)), tr) \<Rightarrow>
          (zeroChunkInfo\<lparr>Start := Start chunk, End := End chunk, Data := bytes\<rparr>, tr @ [EvCopy])
      | (None, tr) \<Rightarrow> (zeroChunkInfo, tr))"

text \<open>
  The attempts of a download against a store in state \<open>s3\<close>: every call is
  \<open>s.GetFileDataRange(chunkCtx, fileUUID, userID, chunk.Start, chunk.End)\<close>, and
  \<open>s3 retry\<close> is what the object store answers to the call of iteration \<open>retry\<close>.
\<close>

definition fetchAttempt ::
  "(nat \<Rightarrow> int \<Rightarrow> int \<Rightarrow> error + body) \<Rightarrow> error + int \<Rightarrow> ChunkInfo \<Rightarrow> nat \<Rightarrow> error + body" where
  "fetchAttempt s3 info chunk retry = GetFileDataRange (s3 retry) info (Start chunk) (End chunk)"

text \<open>The result a worker sends for \<open>chunk\<close> when the store holds \<open>bs\<close> and answers at once.\<close>

definition chunkResult :: "byte list \<Rightarrow> ChunkInfo \<Rightarrow> ChunkInfo" where
  "chunkResult bs chunk =
     fst (processChunk
            (fetchAttempt (\<lambda>retry start end. Inr (Inr (byteRange bs start end)))
               (Inr (int (length bs))) chunk) chunk)"

section \<open>The worker pool\<close>

text \<open>
  \<open>maxWorkers\<close> goroutines run \<open>for chunk := range chunks { ... }\<close>. A worker is idle
  (about to receive from \<open>chunks\<close>), busy with a chunk, or has returned. The \<open>chunks\<close>
  channel has capacity \<open>numChunks\<close>, so the writer goroutine fills and closes it without
  waiting; the pool starts from the full, closed channel. The interleaving of the workers
  is a schedule: the list of the worker indices in the order in which they take a step.
\<close>

datatype wstate = Idle | Busy ChunkInfo | Exited

record pool =
  queue :: "ChunkInfo list"
  workers :: "wstate list"
  resultsCh :: "ChunkInfo list"
  handled :: "ChunkInfo list"

definition initPool :: "ChunkInfo list \<Rightarrow> pool" where
  "initPool plan =
     \<lparr>queue = plan, workers = replicate maxWorkers Idle, resultsCh = [], handled = []\<rparr>"

text \<open>
  One step of worker \<open>k\<close>. \<open>process chunk\<close> is the result the worker sends for the
  chunk. \<open>handled\<close> is a ghost field: the descriptors for which a result was sent, in
  the order of sending.
\<close>

definition workerStep :: "(ChunkInfo \<Rightarrow> ChunkInfo) \<Rightarrow> nat \<Rightarrow> pool \<Rightarrow> pool" where
  "workerStep process k s =
     (if k < length (workers s) then
        (case workers s ! k of
           Exited \<Rightarrow> s
         | Idle \<Rightarrow>
             (case queue s of
                [] \<Rightarrow> s\<lparr>workers := (workers s)[k := Exited]\<rparr>
              | chunk # q \<Rightarrow> s\<lparr>queue := q, workers := (workers s)[k := Busy chunk]\<rparr>)
         | Busy chunk \<Rightarrow>
             (let r = process chunk
              in s\<lparr>workers := (workers s)[k := (if Error r = None then Idle else Exited)],
                   resultsCh := resultsCh s @ [r],
                   handled := handled s @ [chunk]\<rparr>))
      else s)"

fun runPool :: "(ChunkInfo \<Rightarrow> ChunkInfo) \<Rightarrow> nat list \<Rightarrow> pool \<Rightarrow> pool" where
  "runPool process [] s = s"
| "runPool process (k # sched) s = runPool process sched (workerStep process k s)"

text \<open>\<open>wg.Wait()\<close> returns, and \<open>results\<close> is closed, when every worker has returned.\<close>

definition allExited :: "pool \<Rightarrow> bool" where
  "allExited s = list_all (\<lambda>w. w = Exited) (workers s)"

section \<open>\<open>DownloadFileParallel\<close>\<close>

text \<open>
  The function returns \<open>(pr, nil)\<close> as soon as the goroutines are started, unless
  \<open>GetFileInfo\<close> failed or the channel allocation panicked. The model returns the state
  the writer goroutine ends in, for a schedule of the workers: the pipe the caller reads
  from, the \<open>errors\<close> channel (which nothing receives from) and the results left unread.
\<close>

definition DownloadFileParallel ::
  "error + int \<Rightarrow> (ChunkInfo \<Rightarrow> nat \<Rightarrow> error + body) \<Rightarrow> nat list \<Rightarrow> nat option \<Rightarrow> error + writer" where
  "DownloadFileParallel info attempts sched rc =
     (case info of
        Inl e \<Rightarrow> Inl (errFileInfo e)
      | Inr totalSize \<Rightarrow>
          (if numChunks defaultChunkSize totalSize < 0 then Inl errMakechan
           else
             (let plan = planChunks defaultChunkSize totalSize;
                  s = runPool (\<lambda>chunk. fst (processChunk (attempts chunk) chunk)) sched (initPool plan)
              in Inr (writerGoroutine totalSize (resultsCh s) (newPipe rc)))))"

section \<open>Chunk results in offset order\<close>

text \<open>
  The result a worker sends for a chunk it fetched: \<open>ChunkInfo{Start, End, Data}\<close>.
\<close>

definition okResult :: "int \<Rightarrow> int \<Rightarrow> byte list \<Rightarrow> ChunkInfo" where
  "okResult s e bytes = zeroChunkInfo\<lparr>Start := s, End := e, Data := bytes\<rparr>"

text \<open>
  \<open>n\<close> chunks are contiguous when chunk \<open>k\<close> starts at \<open>off k\<close>, carries the
  non-empty payload \<open>d k\<close>, and chunk \<open>k + 1\<close> starts where it ends; \<open>off n\<close> is the
  total size, an \<open>int64\<close>.
\<close>

definition contiguous :: "nat \<Rightarrow> (nat \<Rightarrow> int) \<Rightarrow> (nat \<Rightarrow> byte list) \<Rightarrow> bool" where
  "contiguous n off d \<longleftrightarrow>
     off 0 = 0 \<and> off n < 2 ^ 63 \<and> (\<forall>k<n. d k \<noteq> [] \<and> off (Suc k) = off k + int (length (d k)))"

section \<open>\<open>uploadFileParallel\<close>\<close>

text \<open>
  The key of a chunk is \<open>fmt.Sprintf("%s/chunk_%d", s3Key, chunkNum)\<close>, kept as the
  pair. The calls made on the object store are logged in the order they are made.
\<close>

type_synonym key = "string \<times> int"

datatype s3call = CallUploadBytes key "byte list" | CallDeleteObject key

text \<open>
  The goroutine started for chunk \<open>chunkNum\<close>. \<open>readAt offset size\<close> is
  \<open>file.ReadAt(chunk, offset)\<close> on a buffer of \<open>size\<close> bytes: the buffer after the
  call and the error; \<open>uploadBytes\<close> is \<open>s.s3Client.UploadBytes\<close>. The goroutine
  returns the error it puts on the \<open>errors\<close> channel, if any, and the calls it made.
\<close>

definition uploadGoroutine ::
  "(int \<Rightarrow> int \<Rightarrow> byte list \<times> error option) \<Rightarrow> (key \<Rightarrow> byte list \<Rightarrow> error option)
     \<Rightarrow> string \<Rightarrow> int \<Rightarrow> int \<Rightarrow> error option \<times> s3call list" where
  "uploadGoroutine readAt uploadBytes s3Key totalSize chunkNum =
     (let (offset, size) = uploadSlice chunkSize totalSize chunkNum;
          (chunk, err) = readAt offset size
      in if err \<noteq> None \<and> err \<noteq> Some errEOF
         then (Some (errReadChunk chunkNum (the err)), [])
         else (case uploadBytes (s3Key, chunkNum) chunk of
                 Some e \<Rightarrow> (Some (errUploadChunk chunkNum e), [CallUploadBytes (s3Key, chunkNum) chunk])
               | None \<Rightarrow> (None, [CallUploadBytes (s3Key, chunkNum) chunk])))"

text \<open>
  \<open>for err := range errors { if err != nil { return err } }; return nil\<close> on the
  errors the goroutines sent, in the order they were sent.
\<close>

fun firstError :: "error option list \<Rightarrow> error option" where
  "firstError [] = None"
| "firstError (None # es) = firstError es"
| "firstError (Some e # es) = Some e"

text \<open>
  One goroutine per chunk number \<open>0 .. chunks - 1\<close>, at most \<open>maxConcurrentUploads\<close>
  at a time; \<open>wg.Wait()\<close> waits for all of them. \<open>sched\<close> is the order in which the
  goroutines run to completion, a permutation of the chunk numbers. The function returns
  its error and the log of the calls on the store. A negative chunk count panics in
  \<open>make(chan error, chunks)\<close>.
\<close>

definition uploadFileParallel ::
  "(int \<Rightarrow> int \<Rightarrow> byte list \<times> error option) \<Rightarrow> (key \<Rightarrow> byte list \<Rightarrow> error option)
     \<Rightarrow> int list \<Rightarrow> string \<Rightarrow> int \<Rightarrow> error option \<times> s3call list" where
  "uploadFileParallel readAt uploadBytes sched s3Key totalSize =
     (if numChunks chunkSize totalSize < 0 then (Some errMakechan, [])
      else
        (let outs = map (uploadGoroutine readAt uploadBytes s3Key totalSize) sched
         in (firstError (map fst outs), concat (map snd outs))))"

section \<open>\<open>UploadFile\<close>: the checks before the upload\<close>

record FileHeader =
  Filename :: string
  Size :: int

record StorageQuota =
  TotalBytesLimit :: int
  UsedBytes :: int

text \<open>\<open>StorageQuotaService.CheckSpaceAvailable\<close>; \<open>quota\<close> is the outcome of \<open>GetQuota\<close>.\<close>

definition CheckSpaceAvailable :: "error + StorageQuota \<Rightarrow> int \<Rightarrow> error + bool" where
  "CheckSpaceAvailable quota requiredBytes =
     (case quota of
        Inl e \<Rightarrow> Inl (errGetQuota e)
      | Inr q \<Rightarrow> Inr (add64 (UsedBytes q) requiredBytes \<le> TotalBytesLimit q))"

text \<open>
  \<open>UploadFile\<close> up to the size check. \<open>header\<close> is \<open>None\<close> for a nil pointer, which
  \<open>header.Size\<close> dereferences in the first statement; \<open>fileNil\<close> says that \<open>file\<close> is
  nil. \<open>rest\<close> is everything after the size check (folder lookup, permissions, the
  upload to the object store, the database rows): its result and the calls it makes on
  the object store.
\<close>

definition UploadFile ::
  "(string \<Rightarrow> error + StorageQuota) \<Rightarrow> FileHeader option \<Rightarrow> bool \<Rightarrow> string
     \<Rightarrow> (FileHeader \<Rightarrow> (error + 'f) \<times> s3call list) \<Rightarrow> (error + 'f) \<times> s3call list" where
  "UploadFile getQuota header fileNil userID rest =
     (case header of
        None \<Rightarrow> (Inl errNilPointer, [])
      | Some h \<Rightarrow>
          (case CheckSpaceAvailable (getQuota userID) (Size h) of
             Inl err \<Rightarrow> (Inl (errCheckSpace err), [])
           | Inr spaceAvailable \<Rightarrow>
               if \<not> spaceAvailable then (Inl errNotEnoughSpace, [])
               else if fileNil \<or> userID = [] then (Inl errInvalidFile, [])
               else if Size h > maxFileSize then (Inl errFileTooLarge, [])
               else rest h))"

section \<open>Range requests\<close>















section \<open>Bookkeeping of the worker pool\<close>

text \<open>
  A chunk fails when the result its worker sends carries an error. \<open>busyAt ws c\<close>: some
  worker is busy with \<open>c\<close>; \<open>exitedCount ws\<close>: the number of workers that have
  returned. \<open>poolInv\<close> collects what holds of the pool at every moment: there are
  \<open>maxWorkers\<close> workers; the channel holds the descriptors not yet taken, in order; a
  descriptor taken is either handled or in the hands of exactly one worker; the results
  sent are those of the handled descriptors, in order; and while descriptors are queued,
  every worker that has returned did so after a failed chunk.
\<close>

definition failing :: "(ChunkInfo \<Rightarrow> ChunkInfo) \<Rightarrow> ChunkInfo \<Rightarrow> bool" where
  "failing process c = (Error (process c) \<noteq> None)"

definition busyAt :: "wstate list \<Rightarrow> ChunkInfo \<Rightarrow> bool" where
  "busyAt ws c = (\<exists>i<length ws. ws ! i = Busy c)"

definition exitedCount :: "wstate list \<Rightarrow> nat" where
  "exitedCount ws = length (filter (\<lambda>w. w = Exited) ws)"

definition poolInv :: "(ChunkInfo \<Rightarrow> ChunkInfo) \<Rightarrow> ChunkInfo list \<Rightarrow> pool \<Rightarrow> bool" where
  "poolInv process plan s \<longleftrightarrow>
     length (workers s) = maxWorkers
     \<and> (\<exists>t\<le>length plan. queue s = drop t plan
          \<and> (\<forall>c. c \<in> set (take t plan) \<longleftrightarrow> c \<in> set (handled s) \<or> busyAt (workers s) c))
     \<and> distinct (handled s)
     \<and> (\<forall>c. c \<in> set (handled s) \<longrightarrow> \<not> busyAt (workers s) c)
     \<and> (\<forall>i j c. i < length (workers s) \<and> j < length (workers s)
            \<and> workers s ! i = Busy c \<and> workers s ! j = Busy c \<longrightarrow> i = j)
     \<and> resultsCh s = map process (handled s)
     \<and> (queue s \<noteq> [] \<longrightarrow> exitedCount (workers s) \<le> length (filter (failing process) (handled s)))"

section \<open>Arithmetic of the chunk count\<close>

lemma i64_id: "in_i64 x \<Longrightarrow> i64 x = x"
  unfolding in_i64_def i64_def by (simp add: mod_pos_pos_trivial)

lemma div64_nonneg:
  assumes a: "0 \<le> a" and b: "0 < b" and r: "in_i64 a"
  shows "div64 a b = a div b"
proof -
  have q: "0 \<le> a div b" using a b by (simp add: pos_imp_zdiv_nonneg_iff)
  have "a div b \<le> a div 1" using a b by (intro zdiv_mono2) auto
  then have "in_i64 (a div b)" using q r by (simp add: in_i64_def)
  then have "i64 (a div b) = a div b" by (rule i64_id)
  moreover have "sgn a * sgn b * (\<bar>a\<bar> div \<bar>b\<bar>) = a div b"
  proof (cases "a = 0")
    case True then show ?thesis by simp
  next
    case False
    then have "0 < a" using a by simp
    then show ?thesis using b by simp
  qed
  ultimately show ?thesis by (simp add: div64_def)
qed

lemma numChunks_eq:
  assumes "0 \<le> totalSize" "1 \<le> cs" "totalSize + cs \<le> 2 ^ 63"
  shows "numChunks cs totalSize = (totalSize + cs - 1) div cs"
proof -
  have 2: "sub64 (add64 totalSize cs) 1 = totalSize + cs - 1"
  proof (cases "totalSize + cs = 2^63")
    case True
    then show ?thesis by (simp add: add64_def sub64_def i64_def)
  next
    case False
    then have "in_i64 (totalSize + cs)" using assms by (simp add: in_i64_def)
    then have "add64 totalSize cs = totalSize + cs" by (simp add: add64_def i64_id)
    moreover have "in_i64 (totalSize + cs - 1)" using assms by (simp add: in_i64_def)
    ultimately show ?thesis by (simp add: sub64_def i64_id)
  qed
  have "in_i64 (totalSize + cs - 1)" using assms by (simp add: in_i64_def)
  then show ?thesis unfolding numChunks_def 2
    using assms by (intro div64_nonneg) auto
qed



lemma numChunks_bounds:
  assumes "0 \<le> totalSize" "1 \<le> cs" "totalSize + cs \<le> 2 ^ 63"
  shows "(numChunks cs totalSize - 1) * cs < totalSize"
    and "totalSize \<le> numChunks cs totalSize * cs"
    and "0 \<le> numChunks cs totalSize"
    and "numChunks cs totalSize * cs \<le> totalSize + cs - 1"
proof -
  let ?n = "(totalSize + cs - 1) div cs"
  have n: "numChunks cs totalSize = ?n" using assms by (rule numChunks_eq)
  have cs: "0 < cs" using assms by simp
  have e: "?n * cs + (totalSize + cs - 1) mod cs = totalSize + cs - 1"
    by (simp add: div_mult_mod_eq)
  have m0: "0 \<le> (totalSize + cs - 1) mod cs" using cs by simp
  have m1: "(totalSize + cs - 1) mod cs < cs" using cs by simp
  have "?n * cs \<le> totalSize + cs - 1" using e m0 by linarith
  then show "numChunks cs totalSize * cs \<le> totalSize + cs - 1" by (simp only: n)
  have "totalSize \<le> ?n * cs" using e m1 by linarith
  then show "totalSize \<le> numChunks cs totalSize * cs" by (simp only: n)
  have "0 \<le> ?n" using assms cs by (simp add: pos_imp_zdiv_nonneg_iff)
  then show "0 \<le> numChunks cs totalSize" by (simp only: n)
  have "(?n - 1) * cs = ?n * cs - cs" by (simp add: algebra_simps)
  then have "(?n - 1) * cs < totalSize" using e m0 by linarith
  then show "(numChunks cs totalSize - 1) * cs < totalSize" by (simp only: n)
qed

lemma chunkLoop_upto: "chunkLoop cs totalSize n i = map (chunkBounds cs totalSize) [i..n - 1]"
proof (induction cs totalSize n i rule: chunkLoop.induct)
  case (1 cs totalSize n i)
  show ?case
  proof (cases "i < n")
    case True
    then have "[i..n - 1] = i # [i + 1..n - 1]" by (simp add: upto_rec1)
    then show ?thesis using True 1 by (subst chunkLoop.simps) simp
  next
    case False
    then show ?thesis by (subst chunkLoop.simps) simp
  qed
qed

lemma uploadLoop_upto: "uploadLoop cs totalSize n i = map (uploadSlice cs totalSize) [i..n - 1]"
proof (induction cs totalSize n i rule: uploadLoop.induct)
  case (1 cs totalSize n i)
  show ?case
  proof (cases "i < n")
    case True
    then have "[i..n - 1] = i # [i + 1..n - 1]" by (simp add: upto_rec1)
    then show ?thesis using True 1 by (subst uploadLoop.simps) simp
  next
    case False
    then show ?thesis by (subst uploadLoop.simps) simp
  qed
qed

lemma mult_le_in_i64:
  assumes "0 \<le> i" "i \<le> n" "0 < cs" "n * cs < 2 ^ 63"
  shows "in_i64 (i * cs)"
proof -
  have "i * cs \<le> n * cs" using assms by (simp add: mult_right_mono)
  moreover have "0 \<le> i * cs" using assms by simp
  ultimately show ?thesis using assms(4) unfolding in_i64_def by linarith
qed

lemma chunkBounds_eq:
  assumes "0 \<le> totalSize" "1 \<le> cs" "totalSize + cs \<le> 2 ^ 63"
      and "0 \<le> i" "i < numChunks cs totalSize"
  shows "Start (chunkBounds cs totalSize i) = i * cs"
    and "End (chunkBounds cs totalSize i) = min ((i + 1) * cs) totalSize - 1"
    and "i * cs < totalSize"
proof -
  let ?n = "numChunks cs totalSize"
  have cs: "0 < cs" using assms by simp
  have nb: "?n * cs \<le> totalSize + cs - 1" using assms(1-3) by (rule numChunks_bounds)
  then have nlt: "?n * cs < 2 ^ 63" using assms by linarith
  have s: "mul64 i cs = i * cs"
    unfolding mul64_def using assms cs nlt by (intro i64_id mult_le_in_i64[of i ?n]) auto
  have "in_i64 ((i + 1) * cs)"
    using assms cs nlt by (intro mult_le_in_i64[of "i + 1" ?n]) auto
  then have e: "add64 (i * cs) cs = (i + 1) * cs"
    by (simp add: add64_def i64_id algebra_simps)
  have "i \<le> ?n - 1" using assms by simp
  then have "i * cs \<le> (?n - 1) * cs" using cs by (simp add: mult_right_mono)
  moreover have "totalSize \<noteq> 0"
  proof
    assume "totalSize = 0"
    then have "?n = 0" using assms cs by (simp add: numChunks_eq)
    then show False using assms by simp
  qed
  ultimately show lt: "i * cs < totalSize" using numChunks_bounds(1)[OF assms(1-3)] by linarith
  have "0 \<le> i * cs" using assms cs by simp
  then have "0 < i * cs + cs" using cs by linarith
  then have p: "0 < (i + 1) * cs" by (simp add: algebra_simps)
  have "0 < min ((i + 1) * cs) totalSize" using p lt \<open>0 \<le> i * cs\<close> by simp
  moreover have "min ((i + 1) * cs) totalSize \<le> totalSize" by simp
  moreover have "totalSize < 2 ^ 63" using assms by linarith
  ultimately have "in_i64 (min ((i + 1) * cs) totalSize - 1)"
    unfolding in_i64_def by linarith
  then have m: "sub64 (min ((i + 1) * cs) totalSize) 1 = min ((i + 1) * cs) totalSize - 1"
    by (simp add: sub64_def i64_id)
  show "Start (chunkBounds cs totalSize i) = i * cs" by (simp add: chunkBounds_def Let_def s)
  have "End (chunkBounds cs totalSize i) = sub64 (min ((i + 1) * cs) totalSize) 1"
    by (simp add: chunkBounds_def Let_def s e min_def)
  then show "End (chunkBounds cs totalSize i) = min ((i + 1) * cs) totalSize - 1"
    by (simp only: m)
qed


section \<open>The plan covers the file\<close>

lemma concat_ranges:
  assumes cs: "0 < cs" and cover: "totalSize \<le> n * cs"
  shows "i \<le> n \<Longrightarrow> k = nat (n - i) \<Longrightarrow>
     concat (map (\<lambda>j. [j * cs .. min ((j + 1) * cs) totalSize - 1]) [i..n - 1]) = [i * cs .. totalSize - 1]"
proof (induction k arbitrary: i)
  case 0
  then have "i = n" by simp
  then show ?case using cover by simp
next
  case (Suc k)
  then have lt: "i < n" by simp
  then have u: "[i..n - 1] = i # [i + 1..n - 1]" by (simp add: upto_rec1)
  have ih: "concat (map (\<lambda>j. [j * cs .. min ((j + 1) * cs) totalSize - 1]) [i + 1..n - 1])
      = [(i + 1) * cs .. totalSize - 1]"
    using Suc.prems lt by (intro Suc.IH) auto
  have "(i + 1) * cs = i * cs + cs" by (simp add: algebra_simps)
  then have le: "i * cs \<le> (i + 1) * cs - 1" using cs by linarith
  show ?case
  proof (cases "(i + 1) * cs \<le> totalSize")
    case True
    then have m: "min ((i + 1) * cs) totalSize = (i + 1) * cs" by simp
    have "[i * cs .. totalSize - 1] = [i * cs .. (i + 1) * cs - 1] @ [(i + 1) * cs - 1 + 1 .. totalSize - 1]"
      using le True by (intro upto_split2) simp_all
    then show ?thesis by (simp only: u ih m list.map concat.simps) simp
  next
    case False
    then have m: "min ((i + 1) * cs) totalSize = totalSize" by simp
    have "[(i + 1) * cs .. totalSize - 1] = []" using False by simp
    then show ?thesis by (simp only: u ih m list.map concat.simps) simp
  qed
qed

lemma planChunks_upto:
  "planChunks cs totalSize = map (chunkBounds cs totalSize) [0..numChunks cs totalSize - 1]"
  by (simp add: planChunks_def chunkLoop_upto)

lemma length_planChunks: "length (planChunks cs totalSize) = nat (numChunks cs totalSize)"
  by (simp add: planChunks_upto)

lemma nth_planChunks:
  assumes "k < length (planChunks cs totalSize)"
  shows "planChunks cs totalSize ! k = chunkBounds cs totalSize (int k)"
proof -
  have "int k \<le> numChunks cs totalSize - 1" using assms by (simp add: length_planChunks)
  then have "[0..numChunks cs totalSize - 1] ! k = 0 + int k" by (intro nth_upto) simp
  then show ?thesis using assms by (simp add: planChunks_upto)
qed

lemma planChunks_ranges:
  assumes "0 \<le> totalSize" "1 \<le> cs" "totalSize + cs \<le> 2 ^ 63"
  shows "map chunkRange (planChunks cs totalSize)
       = map (\<lambda>j. [j * cs .. min ((j + 1) * cs) totalSize - 1]) [0..numChunks cs totalSize - 1]"
  unfolding planChunks_upto map_map
proof (rule map_cong[OF refl])
  fix j assume "j \<in> set [0..numChunks cs totalSize - 1]"
  then have j: "0 \<le> j" "j < numChunks cs totalSize" by auto
  show "(chunkRange \<circ> chunkBounds cs totalSize) j = [j * cs .. min ((j + 1) * cs) totalSize - 1]"
    by (simp add: chunkRange_def chunkBounds_eq[OF assms j])
qed

lemma planChunks_cover:
  assumes "0 \<le> totalSize" "1 \<le> cs" "totalSize + cs \<le> 2 ^ 63"
  shows "concat (map chunkRange (planChunks cs totalSize)) = [0 .. totalSize - 1]"
proof -
  have cs: "0 < cs" using assms by simp
  have "concat (map (\<lambda>j. [j * cs .. min ((j + 1) * cs) totalSize - 1]) [0..numChunks cs totalSize - 1])
      = [0 * cs .. totalSize - 1]"
    using numChunks_bounds[OF assms] by (intro concat_ranges[OF cs]) auto
  then show ?thesis by (simp add: planChunks_ranges[OF assms])
qed

lemma planChunks_Start:
  assumes "0 \<le> totalSize" "1 \<le> cs" "totalSize + cs \<le> 2 ^ 63"
      and "k < length (planChunks cs totalSize)"
  shows "Start (planChunks cs totalSize ! k) = int k * cs"
    and "End (planChunks cs totalSize ! k) = min ((int k + 1) * cs) totalSize - 1"
    and "int k * cs < totalSize"
proof -
  have k: "0 \<le> int k" "int k < numChunks cs totalSize"
    using assms(4) by (simp_all add: length_planChunks)
  show "Start (planChunks cs totalSize ! k) = int k * cs"
    by (simp add: nth_planChunks[OF assms(4)] chunkBounds_eq[OF assms(1-3) k])
  show "End (planChunks cs totalSize ! k) = min ((int k + 1) * cs) totalSize - 1"
    by (simp add: nth_planChunks[OF assms(4)] chunkBounds_eq[OF assms(1-3) k])
  show "int k * cs < totalSize" by (rule chunkBounds_eq[OF assms(1-3) k])
qed

lemma planChunks_adjacent:
  assumes "0 \<le> totalSize" "1 \<le> cs" "totalSize + cs \<le> 2 ^ 63"
      and "Suc k < length (planChunks cs totalSize)"
  shows "Start (planChunks cs totalSize ! Suc k) = End (planChunks cs totalSize ! k) + 1"
proof -
  have k: "k < length (planChunks cs totalSize)" using assms(4) by simp
  have sk: "int (Suc k) = int k + 1" by simp
  have "int (Suc k) * cs < totalSize" by (rule planChunks_Start(3)[OF assms])
  then have "min ((int k + 1) * cs) totalSize = (int k + 1) * cs" unfolding sk by simp
  then have "End (planChunks cs totalSize ! k) = (int k + 1) * cs - 1"
    by (simp only: planChunks_Start(2)[OF assms(1-3) k])
  moreover have "Start (planChunks cs totalSize ! Suc k) = (int k + 1) * cs"
    by (simp only: planChunks_Start(1)[OF assms] sk)
  ultimately show ?thesis by simp
qed

lemma planChunks_last:
  assumes "0 \<le> totalSize" "1 \<le> cs" "totalSize + cs \<le> 2 ^ 63"
      and "planChunks cs totalSize \<noteq> []"
  shows "End (last (planChunks cs totalSize)) = totalSize - 1"
proof -
  let ?p = "planChunks cs totalSize"
  have n: "0 < numChunks cs totalSize" using assms(4) by (simp add: planChunks_upto)
  define k where "k = length ?p - 1"
  have l: "k < length ?p" using assms(4) by (simp add: k_def)
  have "int k + 1 = numChunks cs totalSize" using n by (simp add: k_def length_planChunks)
  moreover have "totalSize \<le> numChunks cs totalSize * cs" using assms(1-3) by (rule numChunks_bounds)
  ultimately have "min ((int k + 1) * cs) totalSize = totalSize" by simp
  then have "End (?p ! k) = totalSize - 1" by (simp only: planChunks_Start(2)[OF assms(1-3) l])
  moreover have "last ?p = ?p ! k" unfolding k_def by (rule last_conv_nth[OF assms(4)])
  ultimately show ?thesis by simp
qed

lemma planChunks_nonempty_chunks:
  assumes "0 \<le> totalSize" "1 \<le> cs" "totalSize + cs \<le> 2 ^ 63"
      and "k < length (planChunks cs totalSize)"
  shows "Start (planChunks cs totalSize ! k) \<le> End (planChunks cs totalSize ! k)"
proof -
  have "int k * cs < totalSize" by (rule planChunks_Start(3)[OF assms])
  moreover have "(int k + 1) * cs = int k * cs + cs" by (simp add: algebra_simps)
  then have "int k * cs < (int k + 1) * cs" using assms(2) by linarith
  ultimately have "int k * cs \<le> min ((int k + 1) * cs) totalSize - 1" by simp
  then show ?thesis by (simp add: planChunks_Start(1,2)[OF assms])
qed

lemma uploadSlice_eq:
  assumes "0 \<le> totalSize" "1 \<le> cs" "totalSize + cs \<le> 2 ^ 63"
      and "0 \<le> i" "i < numChunks cs totalSize"
  shows "uploadSlice cs totalSize i
       = (Start (chunkBounds cs totalSize i), chunkLen (chunkBounds cs totalSize i))"
proof -
  let ?n = "numChunks cs totalSize"
  have cs: "0 < cs" using assms by simp
  have nb: "?n * cs \<le> totalSize + cs - 1" using assms(1-3) by (rule numChunks_bounds)
  then have nlt: "?n * cs < 2 ^ 63" using assms by linarith
  have s: "mul64 i cs = i * cs"
    unfolding mul64_def using assms cs nlt by (intro i64_id mult_le_in_i64[of i ?n]) auto
  have "in_i64 ((i + 1) * cs)"
    using assms cs nlt by (intro mult_le_in_i64[of "i + 1" ?n]) auto
  then have e: "add64 (i * cs) cs = (i + 1) * cs"
    by (simp add: add64_def i64_id algebra_simps)
  have lt: "i * cs < totalSize" by (rule chunkBounds_eq(3)[OF assms])
  have nn: "0 \<le> i * cs" using assms cs by simp
  have "in_i64 (totalSize - i * cs)" using lt nn assms(3) cs unfolding in_i64_def by linarith
  then have d: "sub64 totalSize (i * cs) = totalSize - i * cs" by (simp add: sub64_def i64_id)
  have p: "(i + 1) * cs = i * cs + cs" by (simp add: algebra_simps)
  have "uploadSlice cs totalSize i
      = (i * cs, if (i + 1) * cs > totalSize then totalSize - i * cs else cs)"
    by (simp add: uploadSlice_def Let_def s e d)
  also have "(if (i + 1) * cs > totalSize then totalSize - i * cs else cs)
      = min ((i + 1) * cs) totalSize - 1 - i * cs + 1"
    unfolding p by (simp add: min_def)
  finally show ?thesis
    by (simp add: chunkLen_def chunkBounds_eq(1,2)[OF assms])
qed

lemma uploadSlices_planChunks:
  assumes "0 \<le> totalSize" "1 \<le> cs" "totalSize + cs \<le> 2 ^ 63"
  shows "uploadSlices cs totalSize = map (\<lambda>c. (Start c, chunkLen c)) (planChunks cs totalSize)"
  unfolding planChunks_upto uploadSlices_def uploadLoop_upto map_map
proof (rule map_cong[OF refl])
  fix j assume "j \<in> set [0..numChunks cs totalSize - 1]"
  then have j: "0 \<le> j" "j < numChunks cs totalSize" by auto
  show "uploadSlice cs totalSize j = ((\<lambda>c. (Start c, chunkLen c)) \<circ> chunkBounds cs totalSize) j"
    by (simp add: uploadSlice_eq[OF assms j])
qed

lemma sliceRange_chunk: "sliceRange (Start c, chunkLen c) = chunkRange c"
  by (simp add: sliceRange_def chunkRange_def chunkLen_def)

lemma uploadSlices_cover:
  assumes "0 \<le> totalSize" "1 \<le> cs" "totalSize + cs \<le> 2 ^ 63"
  shows "concat (map sliceRange (uploadSlices cs totalSize)) = [0 .. totalSize - 1]"
proof -
  have "map sliceRange (uploadSlices cs totalSize) = map chunkRange (planChunks cs totalSize)"
    by (simp add: uploadSlices_planChunks[OF assms] sliceRange_chunk comp_def)
  then show ?thesis by (simp add: planChunks_cover[OF assms])
qed

lemma numChunks_ceiling:
  assumes "0 \<le> totalSize" "1 \<le> cs" "totalSize + cs \<le> 2 ^ 63"
  shows "numChunks cs totalSize = \<lceil>real_of_int totalSize / real_of_int cs\<rceil>"
proof -
  have cs: "0 < cs" using assms by simp
  have "\<lceil>real_of_int totalSize / real_of_int cs\<rceil> = - ((- totalSize) div cs)"
    by (rule ceiling_divide_eq_div)
  also have "- ((- totalSize) div cs) = (totalSize + cs - 1) div cs"
  proof -
    let ?n = "(totalSize + cs - 1) div cs"
    have e: "?n * cs + (totalSize + cs - 1) mod cs = totalSize + cs - 1"
      by (simp add: div_mult_mod_eq)
    have m0: "0 \<le> (totalSize + cs - 1) mod cs" and m1: "(totalSize + cs - 1) mod cs < cs"
      using cs by simp_all
    define r where "r = cs - 1 - (totalSize + cs - 1) mod cs"
    have r: "0 \<le> r" "r < cs" using m0 m1 by (simp_all add: r_def)
    have "- totalSize = cs * (- ?n) + r" unfolding r_def using e by (simp add: algebra_simps)
    then have "(- totalSize) div cs = - ?n" using r by (rule int_div_pos_eq)
    then show ?thesis by simp
  qed
  finally show ?thesis using numChunks_eq[OF assms] by simp
qed

lemma planChunks_Nil_iff:
  assumes "0 \<le> totalSize" "1 \<le> cs" "totalSize + cs \<le> 2 ^ 63"
  shows "planChunks cs totalSize = [] \<longleftrightarrow> totalSize = 0"
proof -
  have cs: "0 < cs" using assms by simp
  have n0: "0 \<le> numChunks cs totalSize" using assms by (rule numChunks_bounds)
  have "planChunks cs totalSize = [] \<longleftrightarrow> numChunks cs totalSize = 0"
    using n0 length_planChunks[of cs totalSize] by (metis length_0_conv nat_0_iff antisym)
  also have "\<dots> \<longleftrightarrow> totalSize = 0"
  proof
    assume "numChunks cs totalSize = 0"
    then show "totalSize = 0" using numChunks_bounds(2)[OF assms] assms(1) by simp
  next
    assume z: "totalSize = 0"
    have "numChunks cs totalSize = (totalSize + cs - 1) div cs" by (rule numChunks_eq[OF assms])
    then show "numChunks cs totalSize = 0" using cs by (simp add: z)
  qed
  finally show ?thesis .
qed

lemma last_chunkLen:
  assumes "0 \<le> totalSize" "1 \<le> cs" "totalSize + cs \<le> 2 ^ 63"
      and "planChunks cs totalSize \<noteq> []"
  shows "chunkLen (last (planChunks cs totalSize)) = totalSize - (numChunks cs totalSize - 1) * cs"
    and "0 < chunkLen (last (planChunks cs totalSize))"
    and "chunkLen (last (planChunks cs totalSize)) \<le> cs"
proof -
  let ?p = "planChunks cs totalSize"
  let ?n = "numChunks cs totalSize"
  define k where "k = length ?p - 1"
  have l: "k < length ?p" using assms(4) by (simp add: k_def)
  have n: "0 < ?n" using assms(4) by (simp add: planChunks_upto)
  have kn: "int k = ?n - 1" using n by (simp add: k_def length_planChunks)
  have la: "last ?p = ?p ! k" unfolding k_def by (rule last_conv_nth[OF assms(4)])
  have e: "End (last ?p) = totalSize - 1" by (rule planChunks_last[OF assms])
  have s: "Start (last ?p) = (?n - 1) * cs"
    by (simp only: la planChunks_Start(1)[OF assms(1-3) l] kn)
  show len: "chunkLen (last ?p) = totalSize - (?n - 1) * cs"
    by (simp add: chunkLen_def e s)
  have "(?n - 1) * cs < totalSize" using assms(1-3) by (rule numChunks_bounds)
  then show "0 < chunkLen (last ?p)" by (simp add: len)
  have "totalSize \<le> ?n * cs" using assms(1-3) by (rule numChunks_bounds)
  moreover have "(?n - 1) * cs = ?n * cs - cs" by (simp add: algebra_simps)
  ultimately show "chunkLen (last ?p) \<le> cs" unfolding len by linarith
qed

lemma numChunks_one:
  assumes "1 \<le> cs" "cs + cs \<le> 2 ^ 63"
  shows "numChunks cs cs = 1"
proof -
  have "cs + cs - 1 = cs * 1 + (cs - 1)" by simp
  then have "(cs + cs - 1) div cs = 1" using assms(1) by (intro int_div_pos_eq[of _ _ _ "cs - 1"]) auto
  then show ?thesis using assms by (simp add: numChunks_eq)
qed

lemma numChunks_two:
  assumes "1 \<le> cs" "cs + 1 + cs \<le> 2 ^ 63"
  shows "numChunks cs (cs + 1) = 2"
proof -
  have "cs + 1 + cs - 1 = cs * 2 + 0" by simp
  then have "(cs + 1 + cs - 1) div cs = 2" using assms(1) by (intro int_div_pos_eq[of _ _ _ 0]) auto
  then show ?thesis using assms by (simp add: numChunks_eq)
qed

lemma second_chunkLen:
  assumes "1 \<le> cs" "cs + 1 + cs \<le> 2 ^ 63"
  shows "chunkLen (planChunks cs (cs + 1) ! 1) = 1"
proof -
  have a: "0 \<le> cs + 1" "cs + 1 + cs \<le> 2 ^ 63" using assms by simp_all
  have l: "1 < length (planChunks cs (cs + 1))"
    by (simp add: length_planChunks numChunks_two[OF assms])
  have "min ((int 1 + 1) * cs) (cs + 1) = cs + 1" using assms(1) by simp
  then have "End (planChunks cs (cs + 1) ! 1) = cs + 1 - 1"
    by (simp only: planChunks_Start(2)[OF a(1) assms(1) a(2) l])
  moreover have "Start (planChunks cs (cs + 1) ! 1) = int 1 * cs"
    by (rule planChunks_Start(1)[OF a(1) assms(1) a(2) l])
  ultimately show ?thesis by (simp add: chunkLen_def)
qed

lemma chunkLoop_nonpos: "n \<le> 0 \<Longrightarrow> chunkLoop cs totalSize n 0 = []"
  by (subst chunkLoop.simps) simp

lemma uploadLoop_nonpos: "n \<le> 0 \<Longrightarrow> uploadLoop cs totalSize n 0 = []"
  by (subst uploadLoop.simps) simp

lemma numChunks_negative_size:
  assumes "totalSize < 0" "- (2 ^ 63) \<le> totalSize" "1 \<le> cs" "cs < 2 ^ 63"
  shows "numChunks cs totalSize \<le> 0"
    and "numChunks cs totalSize = 0 \<longleftrightarrow> 2 - 2 * cs \<le> totalSize"
proof -
  define a where "a = totalSize + cs - 1"
  have r1: "in_i64 (totalSize + cs)" using assms by (simp add: in_i64_def)
  have r2: "in_i64 a" using assms by (simp add: in_i64_def a_def)
  have s: "sub64 (add64 totalSize cs) 1 = a"
    using r1 r2 by (simp add: add64_def sub64_def i64_id a_def)
  have n: "numChunks cs totalSize = i64 (sgn a * (\<bar>a\<bar> div cs))"
    using assms(3) by (simp add: numChunks_def s div64_def)
  have alt: "a < cs" using assms by (simp add: a_def)
  show "numChunks cs totalSize \<le> 0" and "numChunks cs totalSize = 0 \<longleftrightarrow> 2 - 2 * cs \<le> totalSize"
  proof -
    consider (nonneg) "0 \<le> a" | (neg) "a < 0" by linarith
    then have "numChunks cs totalSize \<le> 0 \<and> (numChunks cs totalSize = 0 \<longleftrightarrow> 2 - 2 * cs \<le> totalSize)"
    proof cases
      case nonneg
      then have "\<bar>a\<bar> div cs = 0" using alt by simp
      then have "numChunks cs totalSize = 0" by (simp add: n i64_def)
      moreover have "2 - 2 * cs \<le> totalSize" using nonneg assms(3) by (simp add: a_def)
      ultimately show ?thesis by simp
    next
      case neg
      define q where "q = (- a) div cs"
      have q0: "0 \<le> q" using neg assms(3) by (simp add: q_def pos_imp_zdiv_nonneg_iff)
      have "q \<le> (- a) div 1" unfolding q_def using neg assms(3) by (intro zdiv_mono2) auto
      then have qa: "q \<le> - a" by simp
      have "- a \<le> 2 ^ 63" using r2 by (simp add: in_i64_def)
      then have "in_i64 (- q)" using q0 qa by (simp add: in_i64_def)
      moreover have "sgn a * (\<bar>a\<bar> div cs) = - q" using neg by (simp add: q_def)
      ultimately have nq: "numChunks cs totalSize = - q" by (simp add: n i64_id)
      have "q = 0 \<longleftrightarrow> - a < cs"
      proof
        assume "q = 0"
        then have "- a = (- a) mod cs" using mult_div_mod_eq[of cs "- a"] by (simp add: q_def)
        moreover have "(- a) mod cs < cs" using assms(3) by simp
        ultimately show "- a < cs" by linarith
      next
        assume "- a < cs"
        then show "q = 0" using neg by (simp add: q_def)
      qed
      also have "\<dots> \<longleftrightarrow> 2 - 2 * cs \<le> totalSize" by (auto simp: a_def)
      finally show ?thesis using q0 nq by simp
    qed
    then show "numChunks cs totalSize \<le> 0" and "numChunks cs totalSize = 0 \<longleftrightarrow> 2 - 2 * cs \<le> totalSize"
      by simp_all
  qed
qed

lemma writer_empty:
  "writerGoroutine 0 rs (newPipe rc) =
     \<lparr>assembledData = [], currentOffset = 0,
      pw = \<lparr>written = [], rclosed_after = rc, wclosed = Some EOF\<rparr>, errors = [], results = rs\<rparr>"
proof -
  have "numChunks defaultChunkSize 0 = 0"
    by (simp add: numChunks_def defaultChunkSize_def add64_def sub64_def div64_def i64_def)
  then show ?thesis
    unfolding writerGoroutine_def by (subst consume.simps) (simp add: newPipe_def pw_Close_def)
qed

section \<open>The reassembly loop\<close>

lemma contiguous_mono:
  assumes "contiguous n off d"
  shows "j \<le> k \<Longrightarrow> k \<le> n \<Longrightarrow> off j \<le> off k"
proof (induction k)
  case 0
  then show ?case by simp
next
  case (Suc k)
  show ?case
  proof (cases "j = Suc k")
    case True
    then show ?thesis by simp
  next
    case False
    then have "off j \<le> off k" using Suc by simp
    moreover have "off (Suc k) = off k + int (length (d k))"
      using assms Suc.prems by (simp add: contiguous_def)
    ultimately show ?thesis by simp
  qed
qed

lemma contiguous_strict:
  assumes "contiguous n off d" and "j < k" and "k \<le> n"
  shows "off j < off k"
proof -
  have j: "j < n" using assms by simp
  then have "off (Suc j) = off j + int (length (d j))" "d j \<noteq> []"
    using assms(1) by (simp_all add: contiguous_def)
  then have "off j < off (Suc j)" by simp
  moreover have "off (Suc j) \<le> off k" using assms by (intro contiguous_mono[OF assms(1)]) simp_all
  ultimately show ?thesis by simp
qed

lemma contiguous_inj:
  assumes "contiguous n off d" and "j \<le> n" and "k \<le> n"
  shows "off j = off k \<longleftrightarrow> j = k"
proof
  assume e: "off j = off k"
  show "j = k"
  proof (rule ccontr)
    assume "j \<noteq> k"
    then consider "j < k" | "k < j" by linarith
    then show False
      using contiguous_strict[OF assms(1), of j k] contiguous_strict[OF assms(1), of k j] assms e
      by cases simp_all
  qed
qed simp

lemma contiguous_in_i64:
  assumes "contiguous n off d" and "k \<le> n"
  shows "in_i64 (off k)"
proof -
  have "off 0 \<le> off k" using assms by (intro contiguous_mono[OF assms(1)]) simp_all
  moreover have "off k \<le> off n" using assms by (intro contiguous_mono[OF assms(1)]) simp_all
  ultimately show ?thesis using assms(1) by (simp add: contiguous_def in_i64_def)
qed

lemma pw_Write_open:
  "rclosed_after p = None \<Longrightarrow> pw_Write p data = Inr (p\<lparr>written := written p @ [data]\<rparr>)"
  by (simp add: pw_Write_def)

lemma drain_run:
  assumes ctg: "contiguous n off d"
  shows "c \<le> j \<Longrightarrow> j \<le> n \<Longrightarrow> rclosed_after p = None
     \<Longrightarrow> (\<forall>k. c \<le> k \<and> k < j \<longrightarrow> map_of m (off k) = Some (d k))
     \<Longrightarrow> map_of m (off j) = None
     \<Longrightarrow> \<exists>m'. drain m (off c) p = (None, m', off j, p\<lparr>written := written p @ map d [c..<j]\<rparr>)
            \<and> (\<forall>k\<le>n. map_of m' (off k) = (if c \<le> k \<and> k < j then None else map_of m (off k)))"
proof (induction "j - c" arbitrary: c m p)
  case 0
  then have cj: "c = j" by simp
  have "drain m (off j) p = (None, m, off j, p)"
    using 0 by (subst drain.simps) simp
  then show ?case using cj by auto
next
  case (Suc x)
  then have lt: "c < j" by simp
  then have cn: "c < n" using Suc.prems by simp
  have look: "map_of m (off c) = Some (d c)" using Suc.prems lt by simp
  let ?p' = "p\<lparr>written := written p @ [d c]\<rparr>"
  let ?m' = "AList.delete (off c) m"
  have nxt: "add64 (off c) (int (length (d c))) = off (Suc c)"
  proof -
    have "off (Suc c) = off c + int (length (d c))" using ctg cn by (simp add: contiguous_def)
    moreover have "in_i64 (off (Suc c))" using cn by (intro contiguous_in_i64[OF ctg]) simp
    ultimately show ?thesis by (simp add: add64_def i64_id)
  qed
  have step: "drain m (off c) p = drain ?m' (off (Suc c)) ?p'"
    by (subst drain.simps) (simp add: look pw_Write_open[OF Suc.prems(3)] nxt)
  have ne: "off k \<noteq> off c" if "Suc c \<le> k" "k \<le> n" for k
    using contiguous_strict[OF ctg, of c k] that by simp
  have a1: "\<forall>k. Suc c \<le> k \<and> k < j \<longrightarrow> map_of ?m' (off k) = Some (d k)"
    using Suc.prems ne by (auto simp: AList.delete_conv')
  have a2: "map_of ?m' (off j) = None"
    using Suc.prems by (simp add: AList.delete_conv')
  have "x = j - Suc c" using Suc.hyps by simp
  from Suc.hyps(1)[OF this _ Suc.prems(2) _ a1 a2, of ?p'] lt Suc.prems(3)
  obtain m2 where m2: "drain ?m' (off (Suc c)) ?p'
        = (None, m2, off j, ?p'\<lparr>written := written ?p' @ map d [Suc c..<j]\<rparr>)"
    and m2m: "\<forall>k\<le>n. map_of m2 (off k) = (if Suc c \<le> k \<and> k < j then None else map_of ?m' (off k))"
    by auto
  have w: "?p'\<lparr>written := written ?p' @ map d [Suc c..<j]\<rparr> = p\<lparr>written := written p @ map d [c..<j]\<rparr>"
    using lt by (simp add: upt_conv_Cons)
  have "\<forall>k\<le>n. map_of m2 (off k) = (if c \<le> k \<and> k < j then None else map_of m (off k))"
  proof (intro allI impI)
    fix k assume k: "k \<le> n"
    show "map_of m2 (off k) = (if c \<le> k \<and> k < j then None else map_of m (off k))"
    proof (cases "k = c")
      case True
      then show ?thesis using m2m k lt by (simp add: AList.delete_conv')
    next
      case False
      then have "off k \<noteq> off c" using contiguous_inj[OF ctg k, of c] cn by simp
      then show ?thesis using m2m k False by (auto simp: AList.delete_conv')
    qed
  qed
  then show ?case using step m2 w by auto
qed

lemma run_end:
  fixes S :: "nat set"
  shows "c \<le> n \<Longrightarrow> \<exists>j. c \<le> j \<and> j \<le> n \<and> (\<forall>x. c \<le> x \<and> x < j \<longrightarrow> x \<in> S) \<and> (j < n \<longrightarrow> j \<notin> S)"
proof (induction "n - c" arbitrary: c)
  case 0
  then have "c = n" by simp
  then show ?case by auto
next
  case (Suc x)
  show ?case
  proof (cases "c \<in> S")
    case False
    then show ?thesis using Suc.prems by (intro exI[of _ c]) auto
  next
    case True
    have "x = n - Suc c" "Suc c \<le> n" using Suc.hyps(2) by simp_all
    from Suc.hyps(1)[OF this] obtain j where
      j: "Suc c \<le> j" "j \<le> n" "\<forall>x. Suc c \<le> x \<and> x < j \<longrightarrow> x \<in> S" "j < n \<longrightarrow> j \<notin> S"
      by auto
    have "\<forall>x. c \<le> x \<and> x < j \<longrightarrow> x \<in> S"
    proof (intro allI impI)
      fix x assume "c \<le> x \<and> x < j"
      then show "x \<in> S" using True j(3) by (cases "x = c") auto
    qed
    then show ?thesis using j by (intro exI[of _ j]) auto
  qed
qed

lemma consume_in_order:
  assumes ctg: "contiguous n off d"
      and R: "\<forall>k<n. R k = okResult (off k) (en k) (d k)"
  shows "distinct ord \<Longrightarrow> set ord \<inter> S = {} \<Longrightarrow> set ord \<union> S = {..<n}
     \<Longrightarrow> i + length ord = n
     \<Longrightarrow> c \<le> n \<Longrightarrow> (\<forall>k<c. k \<in> S) \<Longrightarrow> (c < n \<longrightarrow> c \<notin> S)
     \<Longrightarrow> rclosed_after p = None
     \<Longrightarrow> (\<forall>k\<le>n. map_of m (off k) = (if k \<in> S \<and> c \<le> k \<and> k < n then Some (d k) else None))
     \<Longrightarrow> \<exists>m'. consume (int n) (int i)
              \<lparr>assembledData = m, currentOffset = off c, pw = p, errors = es, results = map R ord\<rparr>
            = \<lparr>assembledData = m', currentOffset = off n,
               pw = p\<lparr>written := written p @ map d [c..<n]\<rparr>, errors = es, results = []\<rparr>"
proof (induction ord arbitrary: S i c p m)
  case Nil
  then have "S = {..<n}" "i = n" by simp_all
  then have "c = n" using Nil.prems by (cases "c < n") auto
  then show ?case using \<open>i = n\<close> by (subst consume.simps) simp
next
  case (Cons k ord)
  have kn: "k < n" using Cons.prems(3) by auto
  have kS: "k \<notin> S" using Cons.prems(2) by auto
  have ck: "c \<le> k" using kS Cons.prems(6) by (cases "c \<le> k") auto
  have iltn: "int i < int n" using Cons.prems(4) by simp
  let ?S = "insert k S"
  let ?m1 = "AList.update (off k) (d k) m"
  obtain j where j: "c \<le> j" "j \<le> n" "\<forall>x. c \<le> x \<and> x < j \<longrightarrow> x \<in> ?S" "j < n \<longrightarrow> j \<notin> ?S"
    using run_end[OF Cons.prems(5), of ?S] by auto
  have inj: "off x = off k \<longleftrightarrow> x = k" if "x \<le> n" for x
    using contiguous_inj[OF ctg that, of k] kn by simp
  have m1: "map_of ?m1 (off x) = (if x = k then Some (d k) else map_of m (off x))" if "x \<le> n" for x
    using inj[OF that] by (simp add: AList.update_conv')
  have a1: "\<forall>x. c \<le> x \<and> x < j \<longrightarrow> map_of ?m1 (off x) = Some (d x)"
  proof (intro allI impI)
    fix x assume x: "c \<le> x \<and> x < j"
    then have xn: "x < n" using j(2) by simp
    have "x \<in> ?S" using j(3) x by simp
    then show "map_of ?m1 (off x) = Some (d x)"
      using m1[of x] xn x Cons.prems(9) by (cases "x = k") auto
  qed
  have a2: "map_of ?m1 (off j) = None"
  proof (cases "j < n")
    case True
    then have "j \<notin> ?S" using j(4) by simp
    then show ?thesis using m1[of j] j(2) Cons.prems(9) by auto
  next
    case False
    then have "j = n" using j(2) by simp
    then show ?thesis using m1[of n] kn Cons.prems(9) by auto
  qed
  from drain_run[OF ctg j(1) j(2) Cons.prems(8) a1 a2]
  obtain m2 where dr: "drain ?m1 (off c) p = (None, m2, off j, p\<lparr>written := written p @ map d [c..<j]\<rparr>)"
    and m2: "\<forall>x\<le>n. map_of m2 (off x) = (if c \<le> x \<and> x < j then None else map_of ?m1 (off x))"
    by auto
  let ?p2 = "p\<lparr>written := written p @ map d [c..<j]\<rparr>"
  have Rk: "R k = okResult (off k) (en k) (d k)" using R kn by simp
  have step: "consume (int n) (int i)
        \<lparr>assembledData = m, currentOffset = off c, pw = p, errors = es, results = map R (k # ord)\<rparr>
      = consume (int n) (int (Suc i))
        \<lparr>assembledData = m2, currentOffset = off j, pw = ?p2, errors = es, results = map R ord\<rparr>"
    using iltn by (subst consume.simps) (simp add: recv_def Rk okResult_def zeroChunkInfo_def dr add.commute)
  have b1: "distinct ord" using Cons.prems(1) by simp
  have b2: "set ord \<inter> ?S = {}" using Cons.prems(1,2) by auto
  have b3: "set ord \<union> ?S = {..<n}" using Cons.prems(3) by auto
  have b4: "Suc i + length ord = n" using Cons.prems(4) by simp
  have b6: "\<forall>x<j. x \<in> ?S"
  proof (intro allI impI)
    fix x assume "x < j"
    then show "x \<in> ?S" using j(3) Cons.prems(6) by (cases "x < c") auto
  qed
  have b8: "rclosed_after ?p2 = None" using Cons.prems(8) by simp
  have b9: "\<forall>x\<le>n. map_of m2 (off x) = (if x \<in> ?S \<and> j \<le> x \<and> x < n then Some (d x) else None)"
  proof (intro allI impI)
    fix x assume xn: "x \<le> n"
    consider "x < c" | "c \<le> x" "x < j" | "j \<le> x" by linarith
    then show "map_of m2 (off x) = (if x \<in> ?S \<and> j \<le> x \<and> x < n then Some (d x) else None)"
    proof cases
      case 1
      then have "x \<noteq> k" using ck by simp
      then show ?thesis using 1 m2 m1[OF xn] xn Cons.prems(9) j(1) by auto
    next
      case 2
      then show ?thesis using m2 xn by auto
    next
      case 3
      then show ?thesis using m2 m1[OF xn] xn Cons.prems(9) j(1) kn by auto
    qed
  qed
  from Cons.IH[OF b1 b2 b3 b4 j(2) b6 j(4) b8 b9]
  obtain m' where fin: "consume (int n) (int (Suc i))
        \<lparr>assembledData = m2, currentOffset = off j, pw = ?p2, errors = es, results = map R ord\<rparr>
      = \<lparr>assembledData = m', currentOffset = off n,
         pw = ?p2\<lparr>written := written ?p2 @ map d [j..<n]\<rparr>, errors = es, results = []\<rparr>"
    by auto
  have "map d [c..<j] @ map d [j..<n] = map d [c..<n]"
    using j(1,2) by (metis map_append upt_add_eq_append le_Suc_ex)
  then have "?p2\<lparr>written := written ?p2 @ map d [j..<n]\<rparr> = p\<lparr>written := written p @ map d [c..<n]\<rparr>"
    by simp
  then show ?case using step fin by auto
qed

lemma mset_image_list:
  "mset rs = image_mset f M \<Longrightarrow> \<exists>ys. mset ys = M \<and> rs = map f ys"
proof (induction rs arbitrary: M)
  case Nil
  then have "M = {#}" by simp
  then have "mset [] = M \<and> [] = map f []" by simp
  then show ?case by (rule exI)
next
  case (Cons r rs)
  have "image_mset f M = add_mset r (mset rs)" using Cons.prems by simp
  from msed_map_invR[OF this]
  obtain M1 a where a: "M = add_mset a M1" "f a = r" "image_mset f M1 = mset rs"
    by (elim exE conjE)
  have "mset rs = image_mset f M1" using a(3) by (rule sym)
  from Cons.IH[OF this] obtain ys where ys: "mset ys = M1" "rs = map f ys"
    by (elim exE conjE)
  have "mset (a # ys) = add_mset a (mset ys)" by (rule mset.simps(2))
  then have 1: "mset (a # ys) = M" by (simp only: ys(1) a(1))
  have "map f (a # ys) = f a # map f ys" by (rule list.map(2))
  then have 2: "r # rs = map f (a # ys)" by (simp only: a(2) ys(2)[symmetric])
  from 1 2 have "mset (a # ys) = M \<and> r # rs = map f (a # ys)" by (rule conjI)
  then show ?case by (rule exI)
qed

lemma arrival_order:
  assumes "mset rs = mset E"
  shows "\<exists>ord. distinct ord \<and> set ord = {..<length E} \<and> rs = map ((!) E) ord"
proof -
  have "mset (map ((!) E) [0..<length E]) = mset E" by (simp only: map_nth)
  then have "mset rs = image_mset ((!) E) (mset [0..<length E])"
    using assms by (simp only: mset_map)
  from mset_image_list[OF this]
  obtain ord where o: "mset ord = mset [0..<length E]" "rs = map ((!) E) ord"
    by (elim exE conjE)
  have "distinct ord \<longleftrightarrow> distinct [0..<length E]" using o(1) by (rule mset_eq_imp_distinct_iff)
  then have d: "distinct ord" by simp
  have "set ord = set [0..<length E]" using o(1) by (rule mset_eq_setD)
  then have s: "set ord = {..<length E}" by (simp add: lessThan_atLeast0)
  from d s o(2) have "distinct ord \<and> set ord = {..<length E} \<and> rs = map ((!) E) ord" by simp
  then show ?thesis by (rule exI)
qed

lemma retryLoop_first_ok:
  "attempt 0 = Inr data \<Longrightarrow>
   retryLoop attempt chunk 0 (r, tr) = (Some (Inr data), tr @ [EvGetFileDataRange (Start chunk) (End chunk)])"
  by (subst retryLoop.simps) (simp add: maxRetries_def)

lemma GetFileDataRange_inside:
  "0 \<le> start \<Longrightarrow> start \<le> end \<Longrightarrow> end < sizeBytes \<Longrightarrow>
   GetFileDataRange s3 (Inr sizeBytes) start end = s3 start end"
  by (simp add: GetFileDataRange_def)

lemma chunkResult_inside:
  assumes "0 \<le> Start c" "Start c \<le> End c" "End c < int (length bs)"
  shows "chunkResult bs c = okResult (Start c) (End c) (byteRange bs (Start c) (End c))"
  unfolding chunkResult_def processChunk_def
  by (subst retryLoop_first_ok[where data = "Inr (byteRange bs (Start c) (End c))"])
     (simp_all add: fetchAttempt_def GetFileDataRange_inside[OF assms] okResult_def)

lemma concat_slices:
  assumes ctg: "contiguous n off d"
      and d: "\<forall>k<n. d k = byteRange bs (off k) (off (Suc k) - 1)"
  shows "m \<le> n \<Longrightarrow> concat (map d [0..<m]) = take (nat (off m)) bs"
proof (induction m)
  case 0
  then show ?case using ctg by (simp add: contiguous_def)
next
  case (Suc m)
  then have mn: "m < n" by simp
  have o: "off (Suc m) = off m + int (length (d m))" using ctg mn by (simp add: contiguous_def)
  have "0 \<le> off m" using contiguous_mono[OF ctg, of 0 m] mn ctg by (simp add: contiguous_def)
  then have n: "nat (off (Suc m)) = nat (off m) + nat (off (Suc m) - off m)" using o by simp
  have "d m = take (nat (off (Suc m) - off m)) (drop (nat (off m)) bs)"
    using d mn by (simp add: byteRange_def)
  then have "concat (map d [0..<Suc m]) = take (nat (off m)) bs @ take (nat (off (Suc m) - off m)) (drop (nat (off m)) bs)"
    using Suc by simp
  also have "\<dots> = take (nat (off (Suc m))) bs" unfolding n by (rule take_add[symmetric])
  finally show ?case .
qed

lemma plan_contiguous:
  fixes bs :: "byte list"
  assumes cs: "1 \<le> cs" and sz: "int (length bs) + cs \<le> 2 ^ 63"
  defines "T \<equiv> int (length bs)"
  defines "plan \<equiv> planChunks cs T"
  defines "off \<equiv> \<lambda>k. min (int k * cs) T"
  defines "d \<equiv> \<lambda>k. byteRange bs (Start (plan ! k)) (End (plan ! k))"
  shows "contiguous (length plan) off d"
    and "\<forall>k<length plan. chunkResult bs (plan ! k) = okResult (off k) (End (plan ! k)) (d k)"
    and "\<forall>k<length plan. d k = byteRange bs (off k) (off (Suc k) - 1)"
    and "off (length plan) = T"
proof -
  have T0: "0 \<le> T" by (simp add: T_def)
  have szT: "T + cs \<le> 2 ^ 63" using sz by (simp add: T_def)
  note P = planChunks_Start[OF T0 cs szT, folded plan_def]
  have n: "int (length plan) = numChunks cs T"
    using numChunks_bounds(3)[OF T0 cs szT] by (simp add: plan_def length_planChunks)
  have offn: "off (length plan) = T"
    using numChunks_bounds(2)[OF T0 cs szT] by (simp add: off_def n)
  show "off (length plan) = T" by (rule offn)
  have st: "Start (plan ! k) = off k" if "k < length plan" for k
    using P(1)[OF that] P(3)[OF that] by (simp add: off_def)
  have en: "End (plan ! k) = off (Suc k) - 1" if "k < length plan" for k
    using P(2)[OF that] by (simp add: off_def add.commute)
  have lt: "off k < off (Suc k)" if k: "k < length plan" for k
  proof -
    have "int k * cs < T" by (rule P(3)[OF k])
    moreover have "int (Suc k) * cs = int k * cs + cs" by (simp add: algebra_simps)
    ultimately show ?thesis using cs unfolding off_def by (simp only: min_def) auto
  qed
  have le: "off (Suc k) \<le> T" for k by (simp add: off_def)
  have o0: "0 \<le> off k" for k using T0 cs by (simp add: off_def)
  show dd: "\<forall>k<length plan. d k = byteRange bs (off k) (off (Suc k) - 1)"
    using st en by (simp add: d_def)
  have len: "int (length (d k)) = off (Suc k) - off k" if k: "k < length plan" for k
  proof -
    have "d k = take (nat (off (Suc k) - off k)) (drop (nat (off k)) bs)"
      using dd k by (simp add: byteRange_def)
    then have "length (d k) = min (length bs - nat (off k)) (nat (off (Suc k) - off k))"
      by simp
    moreover have "nat (off (Suc k) - off k) \<le> length bs - nat (off k)"
      using le[of k] o0[of k] by (simp add: T_def)
    ultimately show ?thesis using lt[OF k] by simp
  qed
  show "contiguous (length plan) off d"
    unfolding contiguous_def
  proof (intro conjI allI impI)
    show "off 0 = 0" using T0 by (simp add: off_def)
    show "off (length plan) < 2 ^ 63" using offn szT cs by simp
  next
    fix k assume k: "k < length plan"
    show "d k \<noteq> []" using len[OF k] lt[OF k] by auto
    show "off (Suc k) = off k + int (length (d k))" using len[OF k] by simp
  qed
  show "\<forall>k<length plan. chunkResult bs (plan ! k) = okResult (off k) (End (plan ! k)) (d k)"
  proof (intro allI impI)
    fix k assume k: "k < length plan"
    have a: "0 \<le> Start (plan ! k)" using st[OF k] o0[of k] by simp
    have b: "Start (plan ! k) \<le> End (plan ! k)" using st[OF k] en[OF k] lt[OF k] by simp
    have c: "End (plan ! k) < int (length bs)" using en[OF k] le[of k] by (simp add: T_def)
    show "chunkResult bs (plan ! k) = okResult (off k) (End (plan ! k)) (d k)"
      using chunkResult_inside[OF a b c] st[OF k] by (simp add: d_def)
  qed
qed

section \<open>The upload coordinator\<close>

lemma firstError_map_None: "firstError (map f xs) = None \<longleftrightarrow> (\<forall>x\<in>set xs. f x = None)"
proof (induction xs)
  case Nil
  then show ?case by simp
next
  case (Cons x xs)
  then show ?case by (cases "f x") simp_all
qed

lemma firstError_first:
  "(\<forall>x\<in>set pre. f x = None) \<Longrightarrow> f i = Some e \<Longrightarrow> firstError (map f (pre @ i # post)) = Some e"
  by (induction pre) simp_all

lemma uploadGoroutine_no_delete:
  "CallDeleteObject k \<notin> set (snd (uploadGoroutine readAt uploadBytes s3Key totalSize i))"
  by (simp add: uploadGoroutine_def Let_def split: prod.splits option.splits)

lemma uploadGoroutine_read_failed:
  assumes "snd (readAt (fst (uploadSlice chunkSize totalSize i)) (snd (uploadSlice chunkSize totalSize i))) \<noteq> None"
      and "snd (readAt (fst (uploadSlice chunkSize totalSize i)) (snd (uploadSlice chunkSize totalSize i))) \<noteq> Some errEOF"
  shows "uploadGoroutine readAt uploadBytes s3Key totalSize i
       = (Some (errReadChunk i (the (snd (readAt (fst (uploadSlice chunkSize totalSize i))
                                             (snd (uploadSlice chunkSize totalSize i)))))), [])"
  using assms by (auto simp: uploadGoroutine_def Let_def split: prod.splits option.splits)

lemma uploadGoroutine_read_ok:
  assumes "snd (readAt (fst (uploadSlice chunkSize totalSize i)) (snd (uploadSlice chunkSize totalSize i))) = None
         \<or> snd (readAt (fst (uploadSlice chunkSize totalSize i)) (snd (uploadSlice chunkSize totalSize i))) = Some errEOF"
  shows "uploadGoroutine readAt uploadBytes s3Key totalSize i
       = (map_option (errUploadChunk i)
            (uploadBytes (s3Key, i)
               (fst (readAt (fst (uploadSlice chunkSize totalSize i)) (snd (uploadSlice chunkSize totalSize i))))),
          [CallUploadBytes (s3Key, i)
             (fst (readAt (fst (uploadSlice chunkSize totalSize i)) (snd (uploadSlice chunkSize totalSize i))))])"
  using assms by (auto simp: uploadGoroutine_def Let_def split: prod.splits option.splits)

lemma concat_map_filter_singleton:
  "concat (map (\<lambda>x. if P x then [] else [g x]) xs) = map g (filter (\<lambda>x. \<not> P x) xs)"
  by (induction xs) simp_all

section \<open>The retry loop\<close>

lemma retryLoop_step:
  "retry < maxRetries \<Longrightarrow>
   retryLoop attempt chunk retry (r, tr) =
     (case attempt retry of
        Inr data \<Rightarrow> (Some (Inr data), tr @ [EvGetFileDataRange (Start chunk) (End chunk)])
      | Inl err \<Rightarrow>
          retryLoop attempt chunk (Suc retry)
            (Some (Inl err), tr @ [EvGetFileDataRange (Start chunk) (End chunk), EvSleep (Suc retry)]))"
  by (subst retryLoop.simps) (simp split: sum.splits)

lemma retryLoop_done:
  "\<not> retry < maxRetries \<Longrightarrow> retryLoop attempt chunk retry (r, tr) = (r, tr)"
  by (subst retryLoop.simps) simp

text \<open>The result sent for a chunk whose fetch succeeded, after reading the body.\<close>

lemma retryLoop_unrolled:
  "retryLoop attempt chunk 0 (None, tr) =
     (case attempt 0 of
        Inr data \<Rightarrow> (Some (Inr data), tr @ [EvGetFileDataRange (Start chunk) (End chunk)])
      | Inl e0 \<Rightarrow>
     (case attempt 1 of
        Inr data \<Rightarrow> (Some (Inr data),
          tr @ [EvGetFileDataRange (Start chunk) (End chunk), EvSleep 1,
                EvGetFileDataRange (Start chunk) (End chunk)])
      | Inl e1 \<Rightarrow>
     (case attempt 2 of
        Inr data \<Rightarrow> (Some (Inr data),
          tr @ [EvGetFileDataRange (Start chunk) (End chunk), EvSleep 1,
                EvGetFileDataRange (Start chunk) (End chunk), EvSleep 2,
                EvGetFileDataRange (Start chunk) (End chunk)])
      | Inl e2 \<Rightarrow> (Some (Inl e2),
          tr @ [EvGetFileDataRange (Start chunk) (End chunk), EvSleep 1,
                EvGetFileDataRange (Start chunk) (End chunk), EvSleep 2,
                EvGetFileDataRange (Start chunk) (End chunk), EvSleep 3]))))"
proof -
  have m: "0 < maxRetries" "Suc 0 < maxRetries" "Suc (Suc 0) < maxRetries"
    "\<not> Suc (Suc (Suc 0)) < maxRetries"
    by (simp_all add: maxRetries_def)
  show ?thesis
    by (simp add: retryLoop_step[OF m(1)] retryLoop_step[OF m(2)] retryLoop_step[OF m(3)]
        retryLoop_done[OF m(4)] numeral_2_eq_2 numeral_3_eq_3 split: sum.splits)
qed

section \<open>Range requests\<close>

lemma GetFileDataRange_clamps:
  "GetFileDataRange s3 (Inr sizeBytes) start end
     = (if max 0 start > (if end \<ge> sizeBytes then sub64 sizeBytes 1 else end)
        then Inl (errBadRange (max 0 start) (if end \<ge> sizeBytes then sub64 sizeBytes 1 else end))
        else s3 (max 0 start) (if end \<ge> sizeBytes then sub64 sizeBytes 1 else end))"
  by (simp add: GetFileDataRange_def Let_def max_def)





section \<open>The writer goroutine never fails the pipe\<close>

lemma pw_Write_wclosed: "pw_Write p data = Inr p' \<Longrightarrow> wclosed p' = wclosed p"
  by (auto simp: pw_Write_def split: option.splits nat.splits)

lemma drain_wclosed: "drain m cur p = (err, m', cur', p') \<Longrightarrow> wclosed p' = wclosed p"
proof (induction m cur p arbitrary: err m' cur' p' rule: drain.induct)
  case (1 m cur p)
  show ?case
  proof (cases "map_of m cur")
    case None
    then show ?thesis using "1.prems" by (subst (asm) drain.simps) simp
  next
    case (Some data)
    show ?thesis
    proof (cases "pw_Write p data")
      case (Inl e)
      then show ?thesis using "1.prems" Some by (subst (asm) drain.simps) simp
    next
      case (Inr p1)
      have "drain (AList.delete cur m) (add64 cur (int (length data))) p1 = (err, m', cur', p')"
        using "1.prems" Some Inr by (subst (asm) drain.simps) simp
      from "1.IH"[OF Some Inr this] have "wclosed p' = wclosed p1" .
      then show ?thesis using pw_Write_wclosed[OF Inr] by simp
    qed
  qed
qed

lemma consume_wclosed: "wclosed (pw (consume n i w)) = wclosed (pw w)"
proof (induction n i w rule: consume.induct)
  case (1 n i w)
  show ?case
  proof (cases "i < n")
    case False
    then show ?thesis by (subst consume.simps) simp
  next
    case True
    obtain result rest where rv: "recv (results w) = (result, rest)" by (cases "recv (results w)")
    let ?w1 = "w\<lparr>results := rest\<rparr>"
    show ?thesis
    proof (cases "Error result")
      case (Some e)
      then show ?thesis using True rv by (subst consume.simps) simp
    next
      case None
      obtain err m cur p where dr:
        "drain (AList.update (Start result) (Data result) (assembledData ?w1)) (currentOffset ?w1) (pw ?w1)
           = (err, m, cur, p)"
        by (metis prod_cases4)
      have wp: "wclosed p = wclosed (pw w)" using drain_wclosed[OF dr] by simp
      show ?thesis
      proof (cases err)
        case (Some e)
        then show ?thesis using True rv None dr wp by (subst consume.simps) simp
      next
        case N: None
        have "wclosed (pw (consume n (i + 1) (?w1\<lparr>assembledData := m, currentOffset := cur, pw := p\<rparr>)))
            = wclosed (pw (?w1\<lparr>assembledData := m, currentOffset := cur, pw := p\<rparr>))"
          using "1.IH"[OF True rv[symmetric] refl refl None] dr N by simp
        then show ?thesis using True rv None dr N wp by (subst consume.simps) simp
      qed
    qed
  qed
qed

lemma writerGoroutine_EOF: "wclosed (pw (writerGoroutine totalSize rs (newPipe rc))) = Some EOF"
  by (simp add: writerGoroutine_def Let_def pw_Close_def consume_wclosed newPipe_def)

section \<open>A download with a failing chunk\<close>

lemma processChunk_closed:
  "processChunk attempt chunk =
     (case attempt 0 of
        Inr body \<Rightarrow>
          (case body of Inl e \<Rightarrow> zeroChunkInfo\<lparr>Error := Some e\<rparr>
                      | Inr bytes \<Rightarrow> okResult (Start chunk) (End chunk) bytes,
           [EvWithTimeout 30, EvGetFileDataRange (Start chunk) (End chunk), EvCopy])
      | Inl e0 \<Rightarrow>
     (case attempt 1 of
        Inr body \<Rightarrow>
          (case body of Inl e \<Rightarrow> zeroChunkInfo\<lparr>Error := Some e\<rparr>
                      | Inr bytes \<Rightarrow> okResult (Start chunk) (End chunk) bytes,
           [EvWithTimeout 30, EvGetFileDataRange (Start chunk) (End chunk), EvSleep 1,
            EvGetFileDataRange (Start chunk) (End chunk), EvCopy])
      | Inl e1 \<Rightarrow>
     (case attempt 2 of
        Inr body \<Rightarrow>
          (case body of Inl e \<Rightarrow> zeroChunkInfo\<lparr>Error := Some e\<rparr>
                      | Inr bytes \<Rightarrow> okResult (Start chunk) (End chunk) bytes,
           [EvWithTimeout 30, EvGetFileDataRange (Start chunk) (End chunk), EvSleep 1,
            EvGetFileDataRange (Start chunk) (End chunk), EvSleep 2,
            EvGetFileDataRange (Start chunk) (End chunk), EvCopy])
      | Inl e2 \<Rightarrow>
          (zeroChunkInfo\<lparr>Error := Some e2\<rparr>,
           [EvWithTimeout 30, EvGetFileDataRange (Start chunk) (End chunk), EvSleep 1,
            EvGetFileDataRange (Start chunk) (End chunk), EvSleep 2,
            EvGetFileDataRange (Start chunk) (End chunk), EvSleep 3]))))"
  by (simp add: processChunk_def retryLoop_unrolled okResult_def split: sum.splits)

lemma processChunk_fails:
  "\<forall>retry. attempt retry = Inl e \<Longrightarrow> fst (processChunk attempt chunk) = zeroChunkInfo\<lparr>Error := Some e\<rparr>"
  by (simp add: processChunk_closed)

lemma processChunk_ok:
  "attempt 0 = Inr (Inr bytes) \<Longrightarrow> fst (processChunk attempt chunk) = okResult (Start chunk) (End chunk) bytes"
  by (simp add: processChunk_closed)

lemma workers5: "replicate maxWorkers Idle = [Idle, Idle, Idle, Idle, Idle]"
  by (simp add: maxWorkers_def numeral_eq_Suc)

text \<open>
  Three chunks, the second of which fails: the three are in flight together, the first
  completes, then the second fails, then the third completes.
\<close>

lemma pool_run3:
  assumes "Error (process c0) = None" and "Error (process c1) \<noteq> None" and "Error (process c2) = None"
  shows "runPool process [0, 1, 2, 0, 1, 2, 0, 2, 3, 4] (initPool [c0, c1, c2])
       = \<lparr>queue = [], workers = [Exited, Exited, Exited, Exited, Exited],
          resultsCh = [process c0, process c1, process c2], handled = [c0, c1, c2]\<rparr>"
  using assms by (simp add: initPool_def workers5 workerStep_def Let_def numeral_eq_Suc)

lemma writer_partial:
  assumes "numChunks defaultChunkSize totalSize = 3" and "d0 \<noteq> []"
  shows "writerGoroutine totalSize
           [okResult 0 e0 d0, zeroChunkInfo\<lparr>Error := Some err\<rparr>, r2] (newPipe None)
       = \<lparr>assembledData = [], currentOffset = add64 0 (int (length d0)),
          pw = \<lparr>written = [d0], rclosed_after = None, wclosed = Some EOF\<rparr>,
          errors = [err], results = [r2]\<rparr>"
proof -
  have dr: "drain [(0, d0)] 0 (newPipe None)
      = (None, [], add64 0 (int (length d0)), \<lparr>written = [d0], rclosed_after = None, wclosed = None\<rparr>)"
    using assms(2)
    by (simp add: drain.simps[of "[(0, d0)]"] drain.simps[of "[]"] pw_Write_def newPipe_def
        AList.delete_eq add64_def i64_def)
  show ?thesis
    unfolding writerGoroutine_def assms(1) Let_def
    by (simp add: consume.simps[of 3 0] consume.simps[of 3 1] recv_def okResult_def zeroChunkInfo_def
        dr AList.update.simps pw_Close_def)
qed

section \<open>Claims\<close>

text \<open>
  C1 (as amended). For every \<open>totalSize \<ge> 0\<close> and \<open>chunkSize \<ge> 1\<close> with
  \<open>totalSize + chunkSize - 1\<close> inside \<open>int64\<close>, the descriptors computed in
  \<open>DownloadFileParallel\<close> partition \<open>[0, totalSize)\<close>: their ranges, concatenated in
  order, are exactly the offsets \<open>0 .. totalSize - 1\<close>; chunk 0 starts at 0, every
  other chunk starts one past the end of its predecessor, and the last chunk ends at
  \<open>totalSize - 1\<close>. The (offset, size) slices of \<open>uploadFileParallel\<close> are the same
  chunks.
\<close>

theorem planner_partition:
  assumes "0 \<le> totalSize" and "1 \<le> cs" and "totalSize + cs \<le> 2 ^ 63"
  shows "concat (map chunkRange (planChunks cs totalSize)) = [0 .. totalSize - 1]
       \<and> (\<forall>k < length (planChunks cs totalSize).
            Start (planChunks cs totalSize ! k)
              = (if k = 0 then 0 else End (planChunks cs totalSize ! (k - 1)) + 1)
            \<and> Start (planChunks cs totalSize ! k) \<le> End (planChunks cs totalSize ! k))
       \<and> (planChunks cs totalSize \<noteq> [] \<longrightarrow> End (last (planChunks cs totalSize)) = totalSize - 1)
       \<and> uploadSlices cs totalSize = map (\<lambda>c. (Start c, chunkLen c)) (planChunks cs totalSize)
       \<and> concat (map sliceRange (uploadSlices cs totalSize)) = [0 .. totalSize - 1]"
proof -
  let ?p = "planChunks cs totalSize"
  have adj: "Start (?p ! k) = (if k = 0 then 0 else End (?p ! (k - 1)) + 1)" if k: "k < length ?p" for k
  proof (cases k)
    case 0
    then show ?thesis using planChunks_Start(1)[OF assms k] by simp
  next
    case (Suc j)
    then show ?thesis using planChunks_adjacent[OF assms, of j] k by simp
  qed
  have ne: "Start (?p ! k) \<le> End (?p ! k)" if "k < length ?p" for k
    using that by (rule planChunks_nonempty_chunks[OF assms])
  show ?thesis
    using planChunks_cover[OF assms] planChunks_last[OF assms] uploadSlices_planChunks[OF assms]
      uploadSlices_cover[OF assms] adj ne
    by blast
qed

theorem planner_partition_witness:
  "concat (map chunkRange (planChunks 5 23)) = [0 .. 22]
   \<and> map Start (planChunks 5 23) = [0, 5, 10, 15, 20]
   \<and> map End (planChunks 5 23) = [4, 9, 14, 19, 22]
   \<and> uploadSlices 5 23 = [(0, 5), (5, 5), (10, 5), (15, 5), (20, 3)]"
proof -
  have "concat (map chunkRange (planChunks 5 23)) = [0 .. 23 - 1]"
    using planner_partition[of 23 5] by simp
  moreover have "map Start (planChunks 5 23) = [0, 5, 10, 15, 20]" by code_simp
  moreover have "map End (planChunks 5 23) = [4, 9, 14, 19, 22]" by code_simp
  moreover have "uploadSlices 5 23 = [(0, 5), (5, 5), (10, 5), (15, 5), (20, 3)]" by code_simp
  ultimately show ?thesis by simp
qed

text \<open>
  As stated, for every \<open>totalSize \<ge> 0\<close>, C1 fails where the \<open>int64\<close> sum
  \<open>totalSize + defaultChunkSize - 1\<close> wraps: the chunk count is negative and no
  descriptor is produced.
\<close>

theorem planner_partition_counterexample:
  "(0::int) \<le> 2 ^ 63 - 1 \<and> 1 \<le> defaultChunkSize
   \<and> concat (map chunkRange (planChunks defaultChunkSize (2 ^ 63 - 1))) \<noteq> [0 .. 2 ^ 63 - 1 - 1]"
proof -
  have n: "numChunks defaultChunkSize (2 ^ 63 - 1) < 0"
    by (simp add: numChunks_def defaultChunkSize_def add64_def sub64_def div64_def i64_def)
  then have "planChunks defaultChunkSize (2 ^ 63 - 1) = []"
    unfolding planChunks_def by (subst chunkLoop.simps) simp
  then show ?thesis by (simp add: defaultChunkSize_def)
qed

text \<open>
  C6 (as amended). For every \<open>totalSize \<ge> 0\<close> and \<open>chunkSize \<ge> 1\<close> with
  \<open>totalSize + chunkSize - 1\<close> inside \<open>int64\<close>, the number of planned chunks is
  \<open>ceil(totalSize / chunkSize)\<close>; the final chunk has size
  \<open>totalSize - (numChunks - 1) * chunkSize\<close>, which is positive and at most
  \<open>chunkSize\<close>; the plan is empty exactly when \<open>totalSize = 0\<close> (and the download
  then ends with zero bytes); \<open>totalSize = chunkSize\<close> gives one chunk and
  \<open>totalSize = chunkSize + 1\<close> gives two, the second of size 1. The slices of
  \<open>uploadFileParallel\<close> have the same sizes.
\<close>

theorem chunk_count:
  assumes "0 \<le> totalSize" and "1 \<le> cs" and "totalSize + cs \<le> 2 ^ 63"
  shows "int (length (planChunks cs totalSize)) = \<lceil>real_of_int totalSize / real_of_int cs\<rceil>
       \<and> numChunks cs totalSize = \<lceil>real_of_int totalSize / real_of_int cs\<rceil>
       \<and> (planChunks cs totalSize \<noteq> [] \<longrightarrow>
            chunkLen (last (planChunks cs totalSize)) = totalSize - (numChunks cs totalSize - 1) * cs
            \<and> 0 < chunkLen (last (planChunks cs totalSize))
            \<and> chunkLen (last (planChunks cs totalSize)) \<le> cs)
       \<and> (planChunks cs totalSize = [] \<longleftrightarrow> totalSize = 0)
       \<and> readAll (pw (writerGoroutine 0 rs (newPipe rc))) = ([], Some EOF)
       \<and> (totalSize = cs \<longrightarrow> length (planChunks cs totalSize) = 1)
       \<and> (totalSize = cs + 1 \<longrightarrow>
            length (planChunks cs totalSize) = 2 \<and> chunkLen (planChunks cs totalSize ! 1) = 1)
       \<and> map snd (uploadSlices cs totalSize) = map chunkLen (planChunks cs totalSize)"
proof -
  let ?p = "planChunks cs totalSize"
  have c: "numChunks cs totalSize = \<lceil>real_of_int totalSize / real_of_int cs\<rceil>"
    by (rule numChunks_ceiling[OF assms])
  have "0 \<le> numChunks cs totalSize" by (rule numChunks_bounds[OF assms])
  then have l: "int (length ?p) = \<lceil>real_of_int totalSize / real_of_int cs\<rceil>"
    using c by (simp add: length_planChunks)
  have one: "length ?p = 1" if "totalSize = cs"
    using that assms by (simp add: length_planChunks numChunks_one)
  have two: "length ?p = 2 \<and> chunkLen (?p ! 1) = 1" if t: "totalSize = cs + 1"
  proof -
    have h: "cs + 1 + cs \<le> 2 ^ 63" using t assms(3) by simp
    show ?thesis
      unfolding t using numChunks_two[OF assms(2) h] second_chunkLen[OF assms(2) h]
      by (simp add: length_planChunks)
  qed
  have up: "map snd (uploadSlices cs totalSize) = map chunkLen ?p"
    by (simp add: uploadSlices_planChunks[OF assms] comp_def)
  have z: "readAll (pw (writerGoroutine 0 rs (newPipe rc))) = ([], Some EOF)"
    by (simp add: writer_empty readAll_def)
  show ?thesis
    using c l last_chunkLen[OF assms] planChunks_Nil_iff[OF assms] one two up z
    by blast
qed

theorem chunk_count_witness:
  "length (planChunks 5000000 23000000) = 5
   \<and> \<lceil>real_of_int 23000000 / real_of_int 5000000\<rceil> = 5
   \<and> map chunkLen (planChunks 5000000 23000000) = [5000000, 5000000, 5000000, 5000000, 3000000]
   \<and> chunkLen (last (planChunks 5000000 23000000)) = 23000000 - (5 - 1) * 5000000"
proof -
  have n: "numChunks 5000000 23000000 = 5" by code_simp
  have "int (length (planChunks 5000000 23000000)) = \<lceil>real_of_int 23000000 / real_of_int 5000000\<rceil>
    \<and> numChunks 5000000 23000000 = \<lceil>real_of_int 23000000 / real_of_int 5000000\<rceil>"
    using chunk_count[of 23000000 5000000] by simp
  moreover have "map chunkLen (planChunks 5000000 23000000)
      = [5000000, 5000000, 5000000, 5000000, 3000000]" by code_simp
  moreover have "chunkLen (last (planChunks 5000000 23000000)) = 3000000" by code_simp
  ultimately show ?thesis using n by simp
qed

text \<open>
  As stated, for every \<open>totalSize \<ge> 0\<close>, C6 fails where the \<open>int64\<close> sum wraps: the
  chunk count of \<open>DownloadFileParallel\<close> is negative there, not the ceiling.
\<close>

theorem chunk_count_counterexample:
  "numChunks defaultChunkSize (2 ^ 63 - 1) = - 1759218604440
   \<and> \<lceil>real_of_int (2 ^ 63 - 1) / real_of_int defaultChunkSize\<rceil> = 1759218604442
   \<and> length (planChunks defaultChunkSize (2 ^ 63 - 1)) = 0"
proof -
  have n: "numChunks defaultChunkSize (2 ^ 63 - 1) = - 1759218604440"
    by (simp add: numChunks_def defaultChunkSize_def add64_def sub64_def div64_def i64_def)
  have "\<lceil>real_of_int (2 ^ 63 - 1) / real_of_int defaultChunkSize\<rceil>
      = - (- (2 ^ 63 - 1) div defaultChunkSize)"
    by (rule ceiling_divide_eq_div)
  also have "\<dots> = 1759218604442" by (simp add: defaultChunkSize_def)
  finally show ?thesis using n by (simp add: length_planChunks)
qed

text \<open>
  C9 (as amended). The planner is a pure computation that checks no argument and has no
  \<open>InvalidArgument\<close> outcome. For \<open>totalSize \<ge> 0\<close> with the sum inside \<open>int64\<close> it
  yields the plan, empty for \<open>totalSize = 0\<close>. A negative \<open>totalSize\<close> is not
  rejected: down to \<open>2 - 2 * chunkSize\<close> the plan is silently empty, and below that the
  chunk count is negative and allocating the channel panics. This holds for
  \<open>DownloadFileParallel\<close> (5 MiB chunks) and \<open>uploadFileParallel\<close> (10 MiB chunks).
\<close>

theorem planner_no_argument_check:
  "(0 \<le> totalSize \<and> totalSize + defaultChunkSize \<le> 2 ^ 63 \<longrightarrow>
      downloadPlan totalSize = Inr (planChunks defaultChunkSize totalSize))
   \<and> (0 \<le> totalSize \<and> totalSize + chunkSize \<le> 2 ^ 63 \<longrightarrow>
      uploadPlan totalSize = Inr (uploadSlices chunkSize totalSize))
   \<and> downloadPlan 0 = Inr [] \<and> uploadPlan 0 = Inr []
   \<and> (- (2 ^ 63) \<le> totalSize \<and> totalSize < 0 \<longrightarrow>
        downloadPlan totalSize
          = (if 2 - 2 * defaultChunkSize \<le> totalSize then Inr [] else Inl errMakechan)
        \<and> uploadPlan totalSize
          = (if 2 - 2 * chunkSize \<le> totalSize then Inr [] else Inl errMakechan))"
proof -
  have d: "1 \<le> defaultChunkSize" "defaultChunkSize < 2 ^ 63" by (simp_all add: defaultChunkSize_def)
  have u: "1 \<le> chunkSize" "chunkSize < 2 ^ 63" by (simp_all add: chunkSize_def)
  have a: "downloadPlan totalSize = Inr (planChunks defaultChunkSize totalSize)"
    if "0 \<le> totalSize" "totalSize + defaultChunkSize \<le> 2 ^ 63"
    using numChunks_bounds(3)[OF that(1) d(1) that(2)] by (simp add: downloadPlan_def)
  have b: "uploadPlan totalSize = Inr (uploadSlices chunkSize totalSize)"
    if "0 \<le> totalSize" "totalSize + chunkSize \<le> 2 ^ 63"
    using numChunks_bounds(3)[OF that(1) u(1) that(2)] by (simp add: uploadPlan_def)
  have z: "downloadPlan 0 = Inr []" "uploadPlan 0 = Inr []" by code_simp+
  have n: "downloadPlan totalSize
      = (if 2 - 2 * defaultChunkSize \<le> totalSize then Inr [] else Inl errMakechan)"
    if t: "- (2 ^ 63) \<le> totalSize" "totalSize < 0"
    using numChunks_negative_size[OF t(2) t(1) d]
    by (auto simp: downloadPlan_def planChunks_def chunkLoop_nonpos)
  have m: "uploadPlan totalSize
      = (if 2 - 2 * chunkSize \<le> totalSize then Inr [] else Inl errMakechan)"
    if t: "- (2 ^ 63) \<le> totalSize" "totalSize < 0"
    using numChunks_negative_size[OF t(2) t(1) u]
    by (auto simp: uploadPlan_def uploadSlices_def uploadLoop_nonpos)
  show ?thesis using a b z n m by blast
qed

theorem planner_no_argument_check_witness:
  "downloadPlan (- 5) = Inr [] \<and> uploadPlan (- 5) = Inr []
   \<and> downloadPlan (- 10485759) = Inl errMakechan
   \<and> map Start (projr (downloadPlan 23)) = [0]"
proof -
  have "downloadPlan (- 5) = (if 2 - 2 * defaultChunkSize \<le> - 5 then Inr [] else Inl errMakechan)
      \<and> uploadPlan (- 5) = (if 2 - 2 * chunkSize \<le> - 5 then Inr [] else Inl errMakechan)"
    using planner_no_argument_check[of "- 5"] by simp
  moreover have "downloadPlan (- 10485759)
      = (if 2 - 2 * defaultChunkSize \<le> - 10485759 then Inr [] else Inl errMakechan)"
    using planner_no_argument_check[of "- 10485759"] by simp
  moreover have "map Start (projr (downloadPlan 23)) = [0]" by code_simp
  ultimately show ?thesis by (simp add: defaultChunkSize_def chunkSize_def)
qed

text \<open>
  As stated, C9 fails on the code: a negative \<open>totalSize\<close> is not rejected with an
  invalid-argument error; \<open>totalSize = -1\<close> silently gives the empty plan.
\<close>

theorem planner_no_argument_check_counterexample:
  "downloadPlan (- 1) = Inr [] \<and> uploadPlan (- 1) = Inr []"
  by code_simp

text \<open>
  C2. For every file content \<open>bs\<close> (of a size whose chunk count does not wrap, see C1)
  and every order \<open>rs\<close> in which the results of its chunks arrive at the writer
  goroutine, the payloads are written to the pipe in offset order, one write per chunk
  in the order of the plan, and the reader gets exactly \<open>bs\<close> followed by end of
  stream; nothing is left buffered and no error is raised. \<open>written\<close> is the log of the
  writes in the order they happened, so no chunk is written before its predecessor.
\<close>

theorem reassembly_in_order:
  assumes sz: "int (length bs) + defaultChunkSize \<le> 2 ^ 63"
      and perm: "mset rs = mset (map (chunkResult bs) (planChunks defaultChunkSize (int (length bs))))"
  shows "written (pw (writerGoroutine (int (length bs)) rs (newPipe None)))
           = map (\<lambda>c. byteRange bs (Start c) (End c)) (planChunks defaultChunkSize (int (length bs)))
       \<and> readAll (pw (writerGoroutine (int (length bs)) rs (newPipe None))) = (bs, Some EOF)
       \<and> errors (writerGoroutine (int (length bs)) rs (newPipe None)) = []
       \<and> results (writerGoroutine (int (length bs)) rs (newPipe None)) = []"
proof -
  define T where "T = int (length bs)"
  define plan where "plan = planChunks defaultChunkSize T"
  define n where "n = length plan"
  define off where "off = (\<lambda>k. min (int k * defaultChunkSize) T)"
  define d where "d = (\<lambda>k. byteRange bs (Start (plan ! k)) (End (plan ! k)))"
  define E where "E = map (chunkResult bs) plan"
  have cs: "1 \<le> defaultChunkSize" by (simp add: defaultChunkSize_def)
  have T0: "0 \<le> T" by (simp add: T_def)
  have szT: "T + defaultChunkSize \<le> 2 ^ 63" using sz by (simp add: T_def)
  have pc1: "contiguous n off d"
    unfolding n_def off_def d_def plan_def T_def by (rule plan_contiguous(1)[OF cs sz])
  have pc2: "\<forall>k<n. chunkResult bs (plan ! k) = okResult (off k) (End (plan ! k)) (d k)"
    unfolding n_def off_def d_def plan_def T_def by (rule plan_contiguous(2)[OF cs sz])
  have pc3: "\<forall>k<n. d k = byteRange bs (off k) (off (Suc k) - 1)"
    unfolding n_def off_def d_def plan_def T_def by (rule plan_contiguous(3)[OF cs sz])
  have pc4: "off n = T"
    unfolding n_def off_def d_def plan_def T_def by (rule plan_contiguous(4)[OF cs sz])
  have lenE: "length E = n" by (simp add: E_def n_def)
  have "mset rs = mset E" using perm by (simp only: E_def plan_def T_def)
  from arrival_order[OF this] obtain ord
    where ord: "distinct ord" "set ord = {..<length E}" "rs = map ((!) E) ord"
    by (elim exE conjE)
  have R: "\<forall>k<n. E ! k = okResult (off k) (End (plan ! k)) (d k)"
    using pc2 by (simp add: E_def n_def)
  have nn: "numChunks defaultChunkSize T = int n"
    using numChunks_bounds(3)[OF T0 cs szT] by (simp add: n_def plan_def length_planChunks)
  have lo: "length ord = n"
    using distinct_card[OF ord(1)] ord(2) lenE by simp
  have "\<exists>m'. consume (int n) (int 0)
        \<lparr>assembledData = [], currentOffset = off 0, pw = newPipe None, errors = [],
           results = map ((!) E) ord\<rparr>
      = \<lparr>assembledData = m', currentOffset = off n,
         pw = (newPipe None)\<lparr>written := written (newPipe None) @ map d [0..<n]\<rparr>,
         errors = [], results = []\<rparr>"
    using ord(1,2) lo lenE
    by (intro consume_in_order[OF pc1 R, where S = "{}"]) (simp_all add: newPipe_def)
  then obtain m' where run: "consume (int n) 0
        \<lparr>assembledData = [], currentOffset = 0, pw = newPipe None, errors = [], results = rs\<rparr>
      = \<lparr>assembledData = m', currentOffset = off n,
         pw = (newPipe None)\<lparr>written := map d [0..<n]\<rparr>, errors = [], results = []\<rparr>"
    using T0 by (auto simp: ord(3) off_def newPipe_def)
  have w: "writerGoroutine T rs (newPipe None)
      = \<lparr>assembledData = m', currentOffset = off n,
         pw = \<lparr>written = map d [0..<n], rclosed_after = None, wclosed = Some EOF\<rparr>,
         errors = [], results = []\<rparr>"
    by (simp only: writerGoroutine_def nn run Let_def) (simp add: pw_Close_def newPipe_def)
  have "map d [0..<n] = map (\<lambda>k. (\<lambda>c. byteRange bs (Start c) (End c)) (plan ! k)) [0..<length plan]"
    by (simp add: d_def n_def)
  also have "\<dots> = map (\<lambda>c. byteRange bs (Start c) (End c)) plan"
    by (rule nth_equalityI) simp_all
  finally have wr: "map d [0..<n] = map (\<lambda>c. byteRange bs (Start c) (End c)) plan" .
  have "concat (map d [0..<n]) = take (nat (off n)) bs"
    by (rule concat_slices[OF pc1 pc3 order_refl])
  then have cc: "concat (map d [0..<n]) = bs" by (simp add: pc4 T_def)
  have "written (pw (writerGoroutine T rs (newPipe None)))
           = map (\<lambda>c. byteRange bs (Start c) (End c)) plan
       \<and> readAll (pw (writerGoroutine T rs (newPipe None))) = (bs, Some EOF)
       \<and> errors (writerGoroutine T rs (newPipe None)) = []
       \<and> results (writerGoroutine T rs (newPipe None)) = []"
    by (simp add: w readAll_def cc wr[symmetric])
  then show ?thesis by (simp only: T_def plan_def)
qed

theorem reassembly_in_order_witness:
  "map Start (planChunks defaultChunkSize (int (length (replicate 5242881 (7::byte))))) = [0, 5242880]
   \<and> readAll (pw (writerGoroutine (int (length (replicate 5242881 (7::byte))))
        (rev (map (chunkResult (replicate 5242881 7))
           (planChunks defaultChunkSize (int (length (replicate 5242881 (7::byte)))))))
        (newPipe None)))
     = (replicate 5242881 7, Some EOF)"
proof -
  have l: "int (length (replicate 5242881 (7::byte))) = 5242881" by simp
  have 1: "map Start (planChunks defaultChunkSize 5242881) = [0, 5242880]" by code_simp
  have sz: "int (length (replicate 5242881 (7::byte))) + defaultChunkSize \<le> 2 ^ 63"
    by (simp add: defaultChunkSize_def)
  have 2: "readAll (pw (writerGoroutine (int (length (replicate 5242881 (7::byte))))
        (rev (map (chunkResult (replicate 5242881 7))
           (planChunks defaultChunkSize (int (length (replicate 5242881 (7::byte)))))))
        (newPipe None)))
     = (replicate 5242881 7, Some EOF)"
    using reassembly_in_order[OF sz mset_rev] by (rule conjunct1[OF conjunct2])
  from 1 2 show ?thesis by (simp only: l simp_thms)
qed

text \<open>
  C10 (as amended). \<open>UploadFile\<close> rejects every file whose declared size exceeds
  \<open>maxFileSize\<close> = 100 MiB before any call on the object store. The quota check and
  the parameter check run before the size check, whatever the size: a failed quota
  lookup returns its wrapped error, a full quota returns the not-enough-space error, a
  missing file or user returns the invalid-file error. When those checks pass, a file
  over the limit is rejected with the file-too-large error, and a file at or below the
  limit is handed to the rest of the upload.
\<close>

theorem upload_size_limit:
  "(Size h > maxFileSize \<longrightarrow>
        snd (UploadFile getQuota (Some h) fileNil userID rest) = []
        \<and> isl (fst (UploadFile getQuota (Some h) fileNil userID rest))
        \<and> (CheckSpaceAvailable (getQuota userID) (Size h) = Inr True \<and> \<not> fileNil \<and> userID \<noteq> []
             \<longrightarrow> fst (UploadFile getQuota (Some h) fileNil userID rest) = Inl errFileTooLarge))
   \<and> (Size h \<le> maxFileSize
        \<and> CheckSpaceAvailable (getQuota userID) (Size h) = Inr True \<and> \<not> fileNil \<and> userID \<noteq> []
        \<longrightarrow> UploadFile getQuota (Some h) fileNil userID rest = rest h)
   \<and> (\<forall>e. CheckSpaceAvailable (getQuota userID) (Size h) = Inl e
        \<longrightarrow> UploadFile getQuota (Some h) fileNil userID rest = (Inl (errCheckSpace e), []))
   \<and> (CheckSpaceAvailable (getQuota userID) (Size h) = Inr False
        \<longrightarrow> UploadFile getQuota (Some h) fileNil userID rest = (Inl errNotEnoughSpace, []))
   \<and> (CheckSpaceAvailable (getQuota userID) (Size h) = Inr True \<and> (fileNil \<or> userID = [])
        \<longrightarrow> UploadFile getQuota (Some h) fileNil userID rest = (Inl errInvalidFile, []))
   \<and> (CheckSpaceAvailable (getQuota userID) (Size h) = Inr True \<and> \<not> fileNil \<and> userID \<noteq> []
        \<and> Size h > maxFileSize
        \<longrightarrow> UploadFile getQuota (Some h) fileNil userID rest = (Inl errFileTooLarge, []))"
  by (auto simp: UploadFile_def split: sum.splits)

theorem upload_size_limit_witness:
  "maxFileSize = 100 * 1024 * 1024
   \<and> UploadFile (\<lambda>u. Inr \<lparr>TotalBytesLimit = 1073741824, UsedBytes = 0\<rparr>)
      (Some \<lparr>Filename = ''big.bin'', Size = 104857601\<rparr>) False ''u1''
      (\<lambda>h. (Inr (Size h), [CallUploadBytes (Filename h, 0) []]))
     = (Inl errFileTooLarge, [])
   \<and> UploadFile (\<lambda>u. Inr \<lparr>TotalBytesLimit = 1073741824, UsedBytes = 0\<rparr>)
      (Some \<lparr>Filename = ''ok.bin'', Size = 104857600\<rparr>) False ''u1''
      (\<lambda>h. (Inr (Size h), [CallUploadBytes (Filename h, 0) []]))
     = (Inr 104857600, [CallUploadBytes (''ok.bin'', 0) []])
   \<and> UploadFile (\<lambda>u. Inr \<lparr>TotalBytesLimit = 52428800, UsedBytes = 0\<rparr>)
      (Some \<lparr>Filename = ''big.bin'', Size = 104857601\<rparr>) False ''u1''
      (\<lambda>h. (Inr (Size h), [CallUploadBytes (Filename h, 0) []]))
     = (Inl errNotEnoughSpace, [])"
proof -
  let ?q = "\<lambda>u::string. (Inr \<lparr>TotalBytesLimit = 1073741824, UsedBytes = 0\<rparr> :: error + StorageQuota)"
  let ?q' = "\<lambda>u::string. (Inr \<lparr>TotalBytesLimit = 52428800, UsedBytes = 0\<rparr> :: error + StorageQuota)"
  let ?rest = "\<lambda>h. (Inr (Size h) :: error + int, [CallUploadBytes (Filename h, 0) []])"
  let ?big = "\<lparr>Filename = ''big.bin'', Size = 104857601\<rparr>"
  let ?ok = "\<lparr>Filename = ''ok.bin'', Size = 104857600\<rparr>"
  have q1: "CheckSpaceAvailable (?q ''u1'') (Size ?big) = Inr True"
    by (simp add: CheckSpaceAvailable_def add64_def i64_def)
  have q2: "CheckSpaceAvailable (?q ''u1'') (Size ?ok) = Inr True"
    by (simp add: CheckSpaceAvailable_def add64_def i64_def)
  have q3: "CheckSpaceAvailable (?q' ''u1'') (Size ?big) = Inr False"
    by (simp add: CheckSpaceAvailable_def add64_def i64_def)
  have 1: "UploadFile ?q (Some ?big) False ''u1'' ?rest = (Inl errFileTooLarge, [])"
    using upload_size_limit[of ?big ?q False "''u1''" ?rest] q1 by (simp add: maxFileSize_def)
  have 2: "UploadFile ?q (Some ?ok) False ''u1'' ?rest = ?rest ?ok"
    using upload_size_limit[of ?ok ?q False "''u1''" ?rest] q2 by (simp add: maxFileSize_def)
  have 3: "UploadFile ?q' (Some ?big) False ''u1'' ?rest = (Inl errNotEnoughSpace, [])"
    using upload_size_limit[of ?big ?q' False "''u1''" ?rest] q3 by (simp add: maxFileSize_def)
  show ?thesis using 1 2 3 by (simp add: maxFileSize_def)
qed

text \<open>
  As stated, C10 fails for a request that does not get as far as the size check: a
  200 MiB file of a user with 50 MiB of quota is rejected with the quota error, not with
  the file-too-large error.
\<close>

theorem upload_size_limit_counterexample:
  "Size \<lparr>Filename = ''big.bin'', Size = 209715200\<rparr> > maxFileSize
   \<and> UploadFile (\<lambda>u. Inr \<lparr>TotalBytesLimit = 52428800, UsedBytes = 0\<rparr>)
        (Some \<lparr>Filename = ''big.bin'', Size = 209715200\<rparr>) False ''u1''
        (\<lambda>h. (Inr (Size h), [CallUploadBytes (Filename h, 0) []]))
     = (Inl errNotEnoughSpace, [])"
  by (simp add: UploadFile_def CheckSpaceAvailable_def add64_def i64_def maxFileSize_def)

text \<open>
  C8 (as amended). For every completion order \<open>sched\<close> of the chunk goroutines (a
  permutation of the chunk numbers), \<open>uploadFileParallel\<close> returns nil exactly when the
  \<open>ReadAt\<close> and the \<open>UploadBytes\<close> of every chunk succeeded; otherwise it returns the
  error of the first chunk that failed in completion order. Every chunk whose read
  succeeded is uploaded exactly once, whether or not other chunks failed, and these
  uploads are the only calls made on the object store: no delete of a chunk already
  written is attempted before the error is returned. (\<open>rd i\<close> is the outcome of the
  \<open>ReadAt\<close> of chunk \<open>i\<close>, \<open>chunkErr i\<close> the error its goroutine reports.)
\<close>

theorem upload_all_or_error:
  fixes readAt :: "int \<Rightarrow> int \<Rightarrow> byte list \<times> error option"
    and uploadBytes :: "key \<Rightarrow> byte list \<Rightarrow> error option"
    and sched :: "int list" and s3Key :: string and totalSize :: int
  defines "n \<equiv> numChunks chunkSize totalSize"
  defines "rd \<equiv> \<lambda>i. readAt (fst (uploadSlice chunkSize totalSize i)) (snd (uploadSlice chunkSize totalSize i))"
  defines "readFailed \<equiv> \<lambda>i. snd (rd i) \<noteq> None \<and> snd (rd i) \<noteq> Some errEOF"
  defines "chunkErr \<equiv> \<lambda>i. if readFailed i then Some (errReadChunk i (the (snd (rd i))))
                          else map_option (errUploadChunk i) (uploadBytes (s3Key, i) (fst (rd i)))"
  defines "R \<equiv> uploadFileParallel readAt uploadBytes sched s3Key totalSize"
  assumes n0: "0 \<le> n" and dist: "distinct sched" and all: "set sched = {0 ..< n}"
  shows "(fst R = None
          \<longleftrightarrow> (\<forall>i. 0 \<le> i \<and> i < n \<longrightarrow> \<not> readFailed i \<and> uploadBytes (s3Key, i) (fst (rd i)) = None))
       \<and> (\<forall>pre i post e. sched = pre @ i # post \<and> (\<forall>j\<in>set pre. chunkErr j = None) \<and> chunkErr i = Some e
            \<longrightarrow> fst R = Some e)
       \<and> snd R = map (\<lambda>i. CallUploadBytes (s3Key, i) (fst (rd i))) (filter (\<lambda>i. \<not> readFailed i) sched)
       \<and> (\<forall>k. CallDeleteObject k \<notin> set (snd R))"
proof -
  let ?g = "uploadGoroutine readAt uploadBytes s3Key totalSize"
  have g: "?g i = (chunkErr i, if readFailed i then [] else [CallUploadBytes (s3Key, i) (fst (rd i))])" for i
  proof (cases "readFailed i")
    case True
    then show ?thesis
      using uploadGoroutine_read_failed[of readAt totalSize i uploadBytes s3Key]
      by (simp add: readFailed_def rd_def chunkErr_def)
  next
    case False
    then show ?thesis
      using uploadGoroutine_read_ok[of readAt totalSize i uploadBytes s3Key]
      by (simp add: readFailed_def rd_def chunkErr_def)
  qed
  have mf: "map fst (map ?g sched) = map chunkErr sched" by (simp add: g)
  have ms: "map snd (map ?g sched)
      = map (\<lambda>i. if readFailed i then [] else [CallUploadBytes (s3Key, i) (fst (rd i))]) sched"
    by (simp add: g)
  have R: "R = (firstError (map chunkErr sched),
                map (\<lambda>i. CallUploadBytes (s3Key, i) (fst (rd i))) (filter (\<lambda>i. \<not> readFailed i) sched))"
    using n0 unfolding R_def uploadFileParallel_def n_def Let_def mf ms concat_map_filter_singleton
    by simp
  have ce: "chunkErr i = None \<longleftrightarrow> \<not> readFailed i \<and> uploadBytes (s3Key, i) (fst (rd i)) = None" for i
    by (simp add: chunkErr_def)
  have a: "fst R = None
      \<longleftrightarrow> (\<forall>i. 0 \<le> i \<and> i < n \<longrightarrow> \<not> readFailed i \<and> uploadBytes (s3Key, i) (fst (rd i)) = None)"
    unfolding R fst_conv firstError_map_None all using ce by auto
  have b: "\<forall>pre i post e. sched = pre @ i # post \<and> (\<forall>j\<in>set pre. chunkErr j = None) \<and> chunkErr i = Some e
            \<longrightarrow> fst R = Some e"
    unfolding R fst_conv using firstError_first[of _ chunkErr] by blast
  have c: "snd R = map (\<lambda>i. CallUploadBytes (s3Key, i) (fst (rd i))) (filter (\<lambda>i. \<not> readFailed i) sched)"
    by (simp add: R)
  have d: "\<forall>k. CallDeleteObject k \<notin> set (snd R)" unfolding c by auto
  show ?thesis using a b c d by blast
qed

theorem upload_all_or_error_witness:
  "uploadFileParallel (\<lambda>off sz. (replicate (nat sz) 7, None)) (\<lambda>k d. None) [1, 0] ''k'' 10485761
     = (None, [CallUploadBytes (''k'', 1) [7], CallUploadBytes (''k'', 0) (replicate 10485760 7)])
   \<and> uploadFileParallel (\<lambda>off sz. (replicate (nat sz) 7, None))
       (\<lambda>k d. if snd k = 1 then Some (errStore ''unavailable'') else None) [1, 0] ''k'' 10485761
     = (Some (errUploadChunk 1 (errStore ''unavailable'')),
        [CallUploadBytes (''k'', 1) [7], CallUploadBytes (''k'', 0) (replicate 10485760 7)])"
proof -
  let ?rd = "\<lambda>(off::int) sz::int. (replicate (nat sz) (7::byte), None :: error option)"
  let ?up = "\<lambda>(k::key) d::byte list. None :: error option"
  let ?up' = "\<lambda>(k::key) d::byte list. if snd k = 1 then Some (errStore ''unavailable'') else None"
  have n: "numChunks chunkSize 10485761 = 2" by code_simp
  have n0: "0 \<le> numChunks chunkSize 10485761" unfolding n by simp
  have d: "distinct [1, 0 :: int]" by simp
  have s: "set [1, 0] = {0 ..< numChunks chunkSize 10485761}" unfolding n by auto
  have sl: "uploadSlice chunkSize 10485761 0 = (0, 10485760)" "uploadSlice chunkSize 10485761 1 = (10485760, 1)"
    by code_simp+
  have two: "(\<forall>i::int. 0 \<le> i \<and> i < 2 \<longrightarrow> P i) \<longleftrightarrow> P 0 \<and> P 1" for P
  proof -
    have "0 \<le> i \<and> i < 2 \<longleftrightarrow> i = 0 \<or> i = 1" for i :: int by linarith
    then show ?thesis by auto
  qed
  have 1: "uploadFileParallel ?rd ?up [1, 0] ''k'' 10485761
     = (None, [CallUploadBytes (''k'', 1) [7], CallUploadBytes (''k'', 0) (replicate 10485760 7)])"
    using upload_all_or_error[OF n0 d s, of ?rd ?up "''k''"]
    by (simp add: n two sl prod_eq_iff)
  note T = upload_all_or_error[OF n0 d s, of ?rd ?up' "''k''"]
  have "fst (uploadFileParallel ?rd ?up' [1, 0] ''k'' 10485761)
      = Some (errUploadChunk 1 (errStore ''unavailable''))"
    using T[THEN conjunct2, THEN conjunct1, rule_format,
        of "[]" 1 "[0]" "errUploadChunk 1 (errStore ''unavailable'')"]
    by (simp add: sl)
  moreover have "snd (uploadFileParallel ?rd ?up' [1, 0] ''k'' 10485761)
      = [CallUploadBytes (''k'', 1) [7], CallUploadBytes (''k'', 0) (replicate 10485760 7)]"
    using T[THEN conjunct2, THEN conjunct2, THEN conjunct1] by (simp add: sl)
  ultimately have 2: "uploadFileParallel ?rd ?up' [1, 0] ''k'' 10485761
     = (Some (errUploadChunk 1 (errStore ''unavailable'')),
        [CallUploadBytes (''k'', 1) [7], CallUploadBytes (''k'', 0) (replicate 10485760 7)])"
    by (simp add: prod_eq_iff)
  show ?thesis using 1 2 by simp
qed

text \<open>
  As stated, C8 fails on the code: when the second of two chunks cannot be uploaded, the
  error is returned with the first chunk written and no delete attempted.
\<close>

theorem upload_all_or_error_counterexample:
  "uploadFileParallel (\<lambda>off sz. (replicate (nat sz) 7, None))
       (\<lambda>k d. if snd k = 1 then Some (errStore ''unavailable'') else None) [0, 1] ''k'' 10485761
     = (Some (errUploadChunk 1 (errStore ''unavailable'')),
        [CallUploadBytes (''k'', 0) (replicate 10485760 7), CallUploadBytes (''k'', 1) [7]])"
proof -
  let ?rd = "\<lambda>(off::int) sz::int. (replicate (nat sz) (7::byte), None :: error option)"
  let ?up = "\<lambda>(k::key) d::byte list. if snd k = 1 then Some (errStore ''unavailable'') else None"
  have n: "numChunks chunkSize 10485761 = 2" by code_simp
  have g0: "uploadGoroutine ?rd ?up ''k'' 10485761 0
      = (None, [CallUploadBytes (''k'', 0) (replicate 10485760 7)])"
    by (simp add: uploadGoroutine_def uploadSlice_def chunkSize_def mul64_def add64_def sub64_def i64_def)
  have g1: "uploadGoroutine ?rd ?up ''k'' 10485761 1
      = (Some (errUploadChunk 1 (errStore ''unavailable'')), [CallUploadBytes (''k'', 1) [7]])"
    by (simp add: uploadGoroutine_def uploadSlice_def chunkSize_def mul64_def add64_def sub64_def i64_def)
  show ?thesis by (simp add: uploadFileParallel_def n g0 g1)
qed

text \<open>
  C4 (as amended). For every chunk a download worker takes, \<open>GetFileDataRange\<close> is
  called up to \<open>maxRetries\<close> = 3 times under one context with a 30-second deadline
  that is created once for the chunk and shared by all its attempts; the k-th failed
  attempt is followed by a sleep of k seconds; the first successful attempt ends the
  loop, and an error of the fetch is reported only when all three attempts failed (an
  error while reading the fetched body is reported without a retry). In the upload path
  \<open>uploadFileParallel\<close> has no retry loop, no 30-second timeout and no backoff of its
  own: the goroutine of a chunk calls \<open>UploadBytes\<close> exactly once when its
  \<open>ReadAt\<close> succeeded, and not at all when it failed, and it reports the error of
  that one call at once. What the S3 client does inside \<open>UploadBytes\<close> is not part
  of the statement.
\<close>

theorem download_retry_policy:
  fixes readAt :: "int \<Rightarrow> int \<Rightarrow> byte list \<times> error option" and totalSize chunkNum :: int
  defines "rd \<equiv> readAt (fst (uploadSlice chunkSize totalSize chunkNum))
                      (snd (uploadSlice chunkSize totalSize chunkNum))"
  shows "processChunk attempt chunk =
     (case attempt 0 of
        Inr body \<Rightarrow>
          (case body of Inl e \<Rightarrow> zeroChunkInfo\<lparr>Error := Some e\<rparr>
                      | Inr bytes \<Rightarrow> okResult (Start chunk) (End chunk) bytes,
           [EvWithTimeout 30, EvGetFileDataRange (Start chunk) (End chunk), EvCopy])
      | Inl e0 \<Rightarrow>
     (case attempt 1 of
        Inr body \<Rightarrow>
          (case body of Inl e \<Rightarrow> zeroChunkInfo\<lparr>Error := Some e\<rparr>
                      | Inr bytes \<Rightarrow> okResult (Start chunk) (End chunk) bytes,
           [EvWithTimeout 30, EvGetFileDataRange (Start chunk) (End chunk), EvSleep 1,
            EvGetFileDataRange (Start chunk) (End chunk), EvCopy])
      | Inl e1 \<Rightarrow>
     (case attempt 2 of
        Inr body \<Rightarrow>
          (case body of Inl e \<Rightarrow> zeroChunkInfo\<lparr>Error := Some e\<rparr>
                      | Inr bytes \<Rightarrow> okResult (Start chunk) (End chunk) bytes,
           [EvWithTimeout 30, EvGetFileDataRange (Start chunk) (End chunk), EvSleep 1,
            EvGetFileDataRange (Start chunk) (End chunk), EvSleep 2,
            EvGetFileDataRange (Start chunk) (End chunk), EvCopy])
      | Inl e2 \<Rightarrow>
          (zeroChunkInfo\<lparr>Error := Some e2\<rparr>,
           [EvWithTimeout 30, EvGetFileDataRange (Start chunk) (End chunk), EvSleep 1,
            EvGetFileDataRange (Start chunk) (End chunk), EvSleep 2,
            EvGetFileDataRange (Start chunk) (End chunk), EvSleep 3]))))
   \<and> uploadGoroutine readAt uploadBytes s3Key totalSize chunkNum =
       (if snd rd \<noteq> None \<and> snd rd \<noteq> Some errEOF
        then (Some (errReadChunk chunkNum (the (snd rd))), [])
        else (map_option (errUploadChunk chunkNum) (uploadBytes (s3Key, chunkNum) (fst rd)),
              [CallUploadBytes (s3Key, chunkNum) (fst rd)]))"
proof -
  have "uploadGoroutine readAt uploadBytes s3Key totalSize chunkNum =
       (if snd rd \<noteq> None \<and> snd rd \<noteq> Some errEOF
        then (Some (errReadChunk chunkNum (the (snd rd))), [])
        else (map_option (errUploadChunk chunkNum) (uploadBytes (s3Key, chunkNum) (fst rd)),
              [CallUploadBytes (s3Key, chunkNum) (fst rd)]))"
    using uploadGoroutine_read_failed[of readAt totalSize chunkNum uploadBytes s3Key]
      uploadGoroutine_read_ok[of readAt totalSize chunkNum uploadBytes s3Key]
    unfolding rd_def by (cases "snd (readAt (fst (uploadSlice chunkSize totalSize chunkNum))
        (snd (uploadSlice chunkSize totalSize chunkNum)))") auto
  moreover have "processChunk attempt chunk = (case attempt 0 of
        Inr body \<Rightarrow>
          (case body of Inl e \<Rightarrow> zeroChunkInfo\<lparr>Error := Some e\<rparr>
                      | Inr bytes \<Rightarrow> okResult (Start chunk) (End chunk) bytes,
           [EvWithTimeout 30, EvGetFileDataRange (Start chunk) (End chunk), EvCopy])
      | Inl e0 \<Rightarrow>
     (case attempt 1 of
        Inr body \<Rightarrow>
          (case body of Inl e \<Rightarrow> zeroChunkInfo\<lparr>Error := Some e\<rparr>
                      | Inr bytes \<Rightarrow> okResult (Start chunk) (End chunk) bytes,
           [EvWithTimeout 30, EvGetFileDataRange (Start chunk) (End chunk), EvSleep 1,
            EvGetFileDataRange (Start chunk) (End chunk), EvCopy])
      | Inl e1 \<Rightarrow>
     (case attempt 2 of
        Inr body \<Rightarrow>
          (case body of Inl e \<Rightarrow> zeroChunkInfo\<lparr>Error := Some e\<rparr>
                      | Inr bytes \<Rightarrow> okResult (Start chunk) (End chunk) bytes,
           [EvWithTimeout 30, EvGetFileDataRange (Start chunk) (End chunk), EvSleep 1,
            EvGetFileDataRange (Start chunk) (End chunk), EvSleep 2,
            EvGetFileDataRange (Start chunk) (End chunk), EvCopy])
      | Inl e2 \<Rightarrow>
          (zeroChunkInfo\<lparr>Error := Some e2\<rparr>,
           [EvWithTimeout 30, EvGetFileDataRange (Start chunk) (End chunk), EvSleep 1,
            EvGetFileDataRange (Start chunk) (End chunk), EvSleep 2,
            EvGetFileDataRange (Start chunk) (End chunk), EvSleep 3]))))"
    by (simp add: processChunk_def retryLoop_unrolled okResult_def split: sum.splits)
  ultimately show ?thesis by simp
qed

text \<open>
  As stated, C4 fails on the code in two ways. A chunk of the upload path whose
  \<open>UploadBytes\<close> fails is reported as failed after that single call. And the three
  attempts of a download chunk run under the one 30-second context of the chunk, not
  under a timeout of their own.
\<close>

theorem download_retry_policy_counterexample:
  "uploadGoroutine (\<lambda>off sz. ([7], None)) (\<lambda>k d. Some (errStore ''unavailable'')) ''k'' 1 0
     = (Some (errUploadChunk 0 (errStore ''unavailable'')), [CallUploadBytes (''k'', 0) [7]])
   \<and> snd (processChunk (\<lambda>retry. Inl (errStore ''unavailable''))
            \<lparr>Start = 0, End = 0, Data = [], Complete = False, Error = None\<rparr>)
     = [EvWithTimeout 30, EvGetFileDataRange 0 0, EvSleep 1,
        EvGetFileDataRange 0 0, EvSleep 2, EvGetFileDataRange 0 0, EvSleep 3]"
proof -
  have "uploadGoroutine (\<lambda>off sz. ([7], None)) (\<lambda>k d. Some (errStore ''unavailable'')) ''k'' 1 0
     = (Some (errUploadChunk 0 (errStore ''unavailable'')), [CallUploadBytes (''k'', 0) [7]])"
    by (simp add: uploadGoroutine_def uploadSlice_def chunkSize_def mul64_def add64_def sub64_def i64_def)
  moreover have "snd (processChunk (\<lambda>retry. Inl (errStore ''unavailable''))
            \<lparr>Start = 0, End = 0, Data = [], Complete = False, Error = None\<rparr>)
     = [EvWithTimeout 30, EvGetFileDataRange 0 0, EvSleep 1,
        EvGetFileDataRange 0 0, EvSleep 2, EvGetFileDataRange 0 0, EvSleep 3]"
    by (simp add: processChunk_def retryLoop_unrolled)
  ultimately show ?thesis by simp
qed



text \<open>
  C3. The claim: when a chunk of a parallel download fails for good, the output stream
  is closed with the underlying error, the remaining chunks are cancelled, and partial
  data is never reported as success. The code does not do this. On every path the
  writer goroutine closes the pipe with \<open>pw.Close()\<close>, so the reader always gets a
  clean end of stream; the error is sent on the \<open>errors\<close> channel, which nothing
  receives from. For a file of three chunks whose second chunk fails all three
  attempts, the reader gets the first 5 MiB and then EOF, the error sits in \<open>errors\<close>,
  and the third chunk was fetched all the same, its result left unread.
\<close>

theorem download_failure_clean_eof:
  "wclosed (pw (writerGoroutine totalSize rs (newPipe rc))) = Some EOF
   \<and> DownloadFileParallel (Inr 10485761)
        (fetchAttempt
           (\<lambda>retry start end.
              if start = 5242880 then Inl (errStore ''unavailable'')
              else Inr (Inr (byteRange (replicate 10485761 7) start end)))
           (Inr 10485761))
        [0, 1, 2, 0, 1, 2, 0, 2, 3, 4] None
     = Inr \<lparr>assembledData = [], currentOffset = 5242880,
            pw = \<lparr>written = [replicate 5242880 7], rclosed_after = None, wclosed = Some EOF\<rparr>,
            errors = [errStore ''unavailable''],
            results = [okResult 10485760 10485760 [7]]\<rparr>"
proof -
  let ?s3 = "\<lambda>(retry::nat) (start::int) (end::int).
      if start = 5242880 then Inl (errStore ''unavailable'')
      else (Inr (Inr (byteRange (replicate 10485761 7) start end)) :: error + body)"
  let ?att = "fetchAttempt ?s3 (Inr 10485761)"
  let ?f = "\<lambda>chunk. fst (processChunk (?att chunk) chunk)"
  let ?c0 = "\<lparr>Start = 0, End = 5242879, Data = [], Complete = False, Error = None\<rparr>"
  let ?c1 = "\<lparr>Start = 5242880, End = 10485759, Data = [], Complete = False, Error = None\<rparr>"
  let ?c2 = "\<lparr>Start = 10485760, End = 10485760, Data = [], Complete = False, Error = None\<rparr>"
  have n: "numChunks defaultChunkSize 10485761 = 3" by code_simp
  have plan: "planChunks defaultChunkSize 10485761 = [?c0, ?c1, ?c2]" by code_simp
  have a0: "?att ?c0 0 = Inr (Inr (replicate 5242880 7))"
    by (simp add: fetchAttempt_def GetFileDataRange_def byteRange_def)
  have a1: "\<forall>retry. ?att ?c1 retry = Inl (errStore ''unavailable'')"
    by (simp add: fetchAttempt_def GetFileDataRange_def)
  have a2: "?att ?c2 0 = Inr (Inr [7])"
    by (simp add: fetchAttempt_def GetFileDataRange_def byteRange_def)
  have f0: "?f ?c0 = okResult 0 5242879 (replicate 5242880 7)"
    using processChunk_ok[of "?att ?c0" "replicate 5242880 7" ?c0, OF a0] by simp
  have f1: "?f ?c1 = zeroChunkInfo\<lparr>Error := Some (errStore ''unavailable'')\<rparr>"
    using processChunk_fails[of "?att ?c1" "errStore ''unavailable''" ?c1, OF a1] by simp
  have f2: "?f ?c2 = okResult 10485760 10485760 [7]"
    using processChunk_ok[of "?att ?c2" "[7]" ?c2, OF a2] by simp
  have e0: "Error (?f ?c0) = None" unfolding f0 by (simp add: okResult_def zeroChunkInfo_def)
  have e1: "Error (?f ?c1) \<noteq> None" unfolding f1 by simp
  have e2: "Error (?f ?c2) = None" unfolding f2 by (simp add: okResult_def zeroChunkInfo_def)
  have pool: "resultsCh (runPool ?f [0, 1, 2, 0, 1, 2, 0, 2, 3, 4] (initPool [?c0, ?c1, ?c2]))
      = [okResult 0 5242879 (replicate 5242880 7),
         zeroChunkInfo\<lparr>Error := Some (errStore ''unavailable'')\<rparr>,
         okResult 10485760 10485760 [7]]"
    unfolding pool_run3[of ?f, OF e0 e1 e2] f0 f1 f2 by simp
  have w: "writerGoroutine 10485761
        [okResult 0 5242879 (replicate 5242880 7),
         zeroChunkInfo\<lparr>Error := Some (errStore ''unavailable'')\<rparr>,
         okResult 10485760 10485760 [7]] (newPipe None)
      = \<lparr>assembledData = [], currentOffset = 5242880,
         pw = \<lparr>written = [replicate 5242880 7], rclosed_after = None, wclosed = Some EOF\<rparr>,
         errors = [errStore ''unavailable''],
         results = [okResult 10485760 10485760 [7]]\<rparr>"
    using writer_partial[OF n, of "replicate 5242880 7" 5242879 "errStore ''unavailable''"
        "okResult 10485760 10485760 [7]"]
    by (simp add: add64_def i64_def)
  have "DownloadFileParallel (Inr 10485761) ?att [0, 1, 2, 0, 1, 2, 0, 2, 3, 4] None
     = Inr \<lparr>assembledData = [], currentOffset = 5242880,
            pw = \<lparr>written = [replicate 5242880 7], rclosed_after = None, wclosed = Some EOF\<rparr>,
            errors = [errStore ''unavailable''],
            results = [okResult 10485760 10485760 [7]]\<rparr>"
  proof -
    have "DownloadFileParallel (Inr 10485761) ?att [0, 1, 2, 0, 1, 2, 0, 2, 3, 4] None
        = Inr (writerGoroutine 10485761
            (resultsCh (runPool ?f [0, 1, 2, 0, 1, 2, 0, 2, 3, 4]
               (initPool (planChunks defaultChunkSize 10485761)))) (newPipe None))"
      by (simp add: DownloadFileParallel_def n del: runPool.simps)
    then show ?thesis by (simp only: plan pool w)
  qed
  then show ?thesis using writerGoroutine_EOF by simp
qed

end
